theory Spec2Isabelle
  imports Main "HOL-Library.Word" "HOL-Library.AList"
begin

section \<open>Lock manager: compatibility of a request with its queue\<close>

text \<open>
  The lock manager's header declares the lock modes, the lock request and the request
  queue of one record. Transaction ids are \<open>txn_id_t\<close>; they are only compared here, so
  they are integers. The queue's latch and condition variable take no part in
  \<open>IsLockCompatible\<close> and are left out; \<open>upgrading\<close> is kept (its initial value is
  \<open>INVALID_TXN_ID\<close>).
\<close>

datatype LockMode = SHARED | EXCLUSIVE

record LockRequest =
  txn_id :: int
  lock_mode :: LockMode
  granted :: bool


text \<open>
  The body of the range-for loop of \<open>IsLockCompatible\<close>, one equation per position of the
  iterator: the empty rest of the list is the loop's end (\<open>return true\<close>), the first test is
  the early \<open>return true\<close> on the requester's own transaction, the second the
  \<open>return false\<close> on \<open>!isCompatible\<close>.
\<close>

fun IsLockCompatible_scan :: "LockRequest list \<Rightarrow> LockRequest \<Rightarrow> bool" where
  "IsLockCompatible_scan [] to_check_request = True"
| "IsLockCompatible_scan (lock_request # rest) to_check_request =
     (if txn_id lock_request = txn_id to_check_request then True
      else
        let isCompatible =
              (granted lock_request \<and>
               (if lock_mode lock_request = EXCLUSIVE then False
                else lock_mode to_check_request \<noteq> EXCLUSIVE))
        in if \<not> isCompatible then False
           else IsLockCompatible_scan rest to_check_request)"


text \<open>
  The compatibility rule in the specification's words, for the requests \<open>pre\<close> that precede
  the request \<open>R\<close>: every one of them is of \<open>R\<close>'s transaction, or is granted with neither
  it nor \<open>R\<close> exclusive.
\<close>

definition rule_holds_for :: "LockRequest \<Rightarrow> LockRequest \<Rightarrow> bool" where
  "rule_holds_for R lr =
     (txn_id lr = txn_id R \<or>
      (granted lr \<and> lock_mode lr \<noteq> EXCLUSIVE \<and> lock_mode R \<noteq> EXCLUSIVE))"

definition compatible_by_rule :: "LockRequest list \<Rightarrow> LockRequest \<Rightarrow> bool" where
  "compatible_by_rule pre R = list_all (rule_holds_for R) pre"


section \<open>Buffer pool manager instance\<close>

subsection \<open>Pages, the replacer and the pool's state\<close>

text \<open>
  \<open>page_id_t\<close> and \<open>INVALID_PAGE_ID\<close> are declared in \<open>common/config.h\<close>, which is not among
  the source files. The code stores a page id in an \<open>int\<close> whose "none" value is \<open>-1\<close>
  (\<open>find_replace\<close>) and adds the \<open>uint32_t\<close> \<open>num_instances_\<close> to it, so a page id is a
  32-bit integer: a word, read as signed by \<open>sint\<close>, on which \<open>+\<close> wraps around and
  \<open>mod\<close> is the unsigned remainder that \<open>page_id % num_instances_\<close> computes after the
  usual conversion to \<open>uint32_t\<close>. Frame ids index the array of pages and no arithmetic is
  done on them: they are natural numbers.
\<close>

type_synonym page_id_t = "32 word"
type_synonym frame_id_t = nat
type_synonym byte = "8 word"

definition INVALID_PAGE_ID :: page_id_t where
  "INVALID_PAGE_ID = - 1"

text \<open>
  Modelled from the spec: the class \<open>Page\<close> (its header is not among the sources).
  Section 3: a frame slot holds \<open>page_id\<close>, a \<open>data\<close> buffer of \<open>PAGE_SIZE\<close> bytes,
  \<open>pin_count\<close> and \<open>is_dirty\<close>. The pin count is an integer that the code compares with
  zero, increments and decrements.
\<close>

record Page =
  page_id :: page_id_t
  data :: "byte list"
  pin_count :: int
  is_dirty :: bool

text \<open>
  Modelled from the spec: the class \<open>LRUReplacer\<close> (its source file is not among the
  sources). Section 4.1: a bounded LRU over frame ids, a list with the most recent at the
  head and the victim at the tail, whose capacity is the size of the buffer pool.
\<close>

record LRUReplacer =
  lru :: "frame_id_t list"
  capacity :: nat

text \<open>
  Modelled from the spec: \<open>LRUReplacer::Victim\<close>. Section 4.1: "remove and return the
  least-recently-unpinned frame; NONE if empty".
\<close>

definition Victim :: "LRUReplacer \<Rightarrow> (frame_id_t \<times> LRUReplacer) option" where
  "Victim r =
     (case lru r of
        [] \<Rightarrow> None
      | _ # _ \<Rightarrow> Some (last (lru r), r\<lparr>lru := butlast (lru r)\<rparr>))"

text \<open>
  Modelled from the spec: \<open>LRUReplacer::Pin\<close>. Section 4.1: "remove that frame from LRU
  tracking", idempotent.
\<close>

definition Pin :: "frame_id_t \<Rightarrow> LRUReplacer \<Rightarrow> LRUReplacer" where
  "Pin frame_id r = r\<lparr>lru := removeAll frame_id (lru r)\<rparr>"

text \<open>
  Modelled from the spec: \<open>LRUReplacer::Unpin\<close>. Section 4.1: "insert the frame as
  most-recently-used if not already present", and "attempts to unpin beyond capacity are
  ignored".
\<close>

definition Unpin :: "frame_id_t \<Rightarrow> LRUReplacer \<Rightarrow> LRUReplacer" where
  "Unpin frame_id r =
     (if frame_id \<in> set (lru r) \<or> capacity r \<le> length (lru r) then r
      else r\<lparr>lru := frame_id # lru r\<rparr>)"

text \<open>
  Modelled from the spec: the disk manager's \<open>WritePage\<close> and \<open>ReadPage\<close> (section 6:
  "persist buffer", "fill buffer with the on-disk contents") and the pool's own
  \<open>DeallocatePage\<close>, declared in the header that is not among the sources (section 4.2:
  "deallocate the page id at the disk layer"). Each is the record of the call with its
  arguments, kept in the order in which the code makes the calls. The erasures of
  page-table entries are recorded among them: a state-passing model would otherwise lose
  the order of a disk write and an erasure.
\<close>

datatype event =
  WritePage page_id_t "byte list"
| ReadPage page_id_t
| DeallocatePage page_id_t
| PageTableErase page_id_t

text \<open>
  The members of the class. \<open>pages_\<close> is an array of \<open>pool_size_\<close> pages, here the list
  \<open>pages\<close>, whose length is the pool size. \<open>page_table_\<close> is an unordered map: an
  association list, whose order stands for the map's iteration order (\<open>find_replace\<close>
  iterates over it); \<open>map_of\<close> is \<open>find\<close>, \<open>AList.delete\<close> is \<open>erase\<close> and \<open>AList.update\<close>
  is the assignment through \<open>operator[]\<close>. The latch is left out: the model is of one
  call at a time.
\<close>

record BufferPoolManagerInstance =
  num_instances :: "32 word"
  instance_index :: "32 word"
  next_page_id :: page_id_t
  pages :: "Page list"
  page_table :: "(page_id_t \<times> frame_id_t) list"
  free_list :: "frame_id_t list"
  replacer :: LRUReplacer
  effects :: "event list"

definition pool_size :: "BufferPoolManagerInstance \<Rightarrow> nat" where
  "pool_size s = length (pages s)"

datatype failure = AssertionFailed

text \<open>
  \<open>PAGE_SIZE\<close> is declared in \<open>common/config.h\<close>, which is not among the sources; no
  property below depends on its value.
\<close>

definition PAGE_SIZE :: nat where
  "PAGE_SIZE = 4096"

text \<open>
  Modelled from the spec: the constructor of \<open>Page\<close>. Section 3: the frames of the free
  list were never loaded; such a frame holds no page (\<open>INVALID_PAGE_ID\<close>), is unpinned
  and clean, and its buffer is \<open>PAGE_SIZE\<close> zero bytes.
\<close>

definition new_Page :: Page where
  "new_Page =
     \<lparr>page_id = INVALID_PAGE_ID, data = replicate PAGE_SIZE 0, pin_count = 0,
      is_dirty = False\<rparr>"

text \<open>
  The constructor, with its two assertions. Initially every frame is in the free list.
\<close>

definition new_BufferPoolManagerInstance ::
  "nat \<Rightarrow> 32 word \<Rightarrow> 32 word \<Rightarrow> failure + BufferPoolManagerInstance" where
  "new_BufferPoolManagerInstance pool_size' num_instances' instance_index' =
     (if \<not> 0 < num_instances' then Inl AssertionFailed
      else if \<not> instance_index' < num_instances' then Inl AssertionFailed
      else Inr
        \<lparr>num_instances = num_instances',
         instance_index = instance_index',
         next_page_id = instance_index',
         pages = replicate pool_size' new_Page,
         page_table = [],
         free_list = [0 ..< pool_size'],
         replacer = \<lparr>lru = [], capacity = pool_size'\<rparr>,
         effects = []\<rparr>)"

subsection \<open>Page id allocation\<close>

text \<open>
  \<open>ValidatePageId\<close> is an assertion; \<open>AllocatePage\<close> calls it after it has advanced
  \<open>next_page_id_\<close>, on the id it is about to return, and fails when the assertion does.
\<close>

definition ValidatePageId :: "BufferPoolManagerInstance \<Rightarrow> page_id_t \<Rightarrow> bool" where
  "ValidatePageId s page_id' = (page_id' mod num_instances s = instance_index s)"

definition AllocatePage ::
  "BufferPoolManagerInstance \<Rightarrow> failure + (page_id_t \<times> BufferPoolManagerInstance)" where
  "AllocatePage s =
     (let next_page_id' = next_page_id s;
          s' = s\<lparr>next_page_id := next_page_id s + num_instances s\<rparr>
      in if ValidatePageId s' next_page_id' then Inr (next_page_id', s')
         else Inl AssertionFailed)"

text \<open>
  \<open>AllocatePages n\<close> makes \<open>n\<close> calls one after the other and collects what they return;
  \<open>nth_AllocatePage n\<close> is the result of the \<open>n\<close>-th call, counting from 0, with the state
  it leaves.
\<close>

fun AllocatePages ::
  "nat \<Rightarrow> BufferPoolManagerInstance \<Rightarrow> failure + (page_id_t list \<times> BufferPoolManagerInstance)"
  where
  "AllocatePages 0 s = Inr ([], s)"
| "AllocatePages (Suc n) s =
     (case AllocatePage s of
        Inl e \<Rightarrow> Inl e
      | Inr (p, s') \<Rightarrow>
          (case AllocatePages n s' of
             Inl e \<Rightarrow> Inl e
           | Inr (ps, s'') \<Rightarrow> Inr (p # ps, s'')))"

definition nth_AllocatePage ::
  "nat \<Rightarrow> BufferPoolManagerInstance \<Rightarrow> failure + (page_id_t \<times> BufferPoolManagerInstance)"
  where
  "nth_AllocatePage n s =
     (case AllocatePages n s of
        Inl e \<Rightarrow> Inl e
      | Inr (ps, s') \<Rightarrow> AllocatePage s')"

subsection \<open>Frame acquisition\<close>

text \<open>
  The loop of \<open>find_replace\<close> over the page table: the key of the first entry, in
  iteration order, whose frame is the victim, and \<open>-1\<close> when there is none.
\<close>

definition find_page_of_frame :: "(page_id_t \<times> frame_id_t) list \<Rightarrow> frame_id_t \<Rightarrow> page_id_t"
  where
  "find_page_of_frame table frame_id =
     (case find (\<lambda>p. snd p = frame_id) table of
        None \<Rightarrow> - 1
      | Some p \<Rightarrow> fst p)"

text \<open>
  \<open>find_replace\<close>: the frame id is the value written through \<open>frame_id\<close> when the
  function returns true, and nothing when it returns false.
\<close>

definition find_replace ::
  "BufferPoolManagerInstance \<Rightarrow> BufferPoolManagerInstance \<times> frame_id_t option" where
  "find_replace s =
     (case free_list s of
        frame_id # rest \<Rightarrow> (s\<lparr>free_list := rest\<rparr>, Some frame_id)
      | [] \<Rightarrow>
          (case Victim (replacer s) of
             None \<Rightarrow> (s, None)
           | Some (frame_id, r') \<Rightarrow>
               let s1 = s\<lparr>replacer := r'\<rparr>;
                   replace_page_id = find_page_of_frame (page_table s1) frame_id
               in if replace_page_id \<noteq> - 1 then
                    let replace_page = pages s1 ! frame_id;
                        s2 = (if is_dirty replace_page then
                                s1\<lparr>effects := effects s1 @
                                      [WritePage (page_id replace_page) (data replace_page)],
                                   pages := (pages s1)
                                      [frame_id := replace_page\<lparr>pin_count := 0\<rparr>]\<rparr>
                              else s1);
                        s3 = s2\<lparr>page_table :=
                                   AList.delete (page_id replace_page) (page_table s2),
                                 effects := effects s2 @
                                   [PageTableErase (page_id replace_page)]\<rparr>
                    in (s3, Some frame_id)
                  else (s1, Some frame_id)))"

subsection \<open>The operations on pages\<close>

text \<open>
  \<open>FlushPgImp\<close>: no write for a page that is not resident or for the invalid page id.
  (The failing branch also unlocks the latch, which is not modelled.)
\<close>

definition FlushPgImp ::
  "page_id_t \<Rightarrow> BufferPoolManagerInstance \<Rightarrow> BufferPoolManagerInstance \<times> bool" where
  "FlushPgImp page_id' s =
     (case map_of (page_table s) page_id' of
        None \<Rightarrow> (s, False)
      | Some flush_fid \<Rightarrow>
          if page_id' = INVALID_PAGE_ID then (s, False)
          else (s\<lparr>effects := effects s @
                     [WritePage page_id' (data (pages s ! flush_fid))]\<rparr>, True))"

text \<open>
  \<open>NewPgImp\<close> returns a pointer to the frame, or null, and sets \<open>*page_id\<close> when it returns
  a frame: here the new page id with the frame's index in the new state.
\<close>

definition NewPgImp ::
  "BufferPoolManagerInstance \<Rightarrow>
     failure + (BufferPoolManagerInstance \<times> (page_id_t \<times> frame_id_t) option)" where
  "NewPgImp s =
     (case AllocatePage s of
        Inl e \<Rightarrow> Inl e
      | Inr (new_page_id, s0) \<Rightarrow>
          let is_all = list_all (\<lambda>p. pin_count p \<noteq> 0) (pages s0)
          in if is_all then Inr (s0, None)
             else
               (case find_replace s0 of
                  (s1, None) \<Rightarrow> Inr (s1, None)
                | (s1, Some victim_fid) \<Rightarrow>
                    let victim_page = pages s1 ! victim_fid;
                        s2 = s1\<lparr>pages := (pages s1)
                                  [victim_fid := victim_page
                                     \<lparr>page_id := new_page_id,
                                      pin_count := pin_count victim_page + 1,
                                      is_dirty := False\<rparr>],
                                replacer := Pin victim_fid (replacer s1),
                                page_table :=
                                  AList.update new_page_id victim_fid (page_table s1)\<rparr>
                    in Inr (s2, Some (new_page_id, victim_fid))))"

text \<open>
  \<open>FetchPgImp\<close>; what the disk manager's \<open>ReadPage\<close> delivers for a page id is the
  parameter \<open>disk\<close> (the disk manager is not among the sources).
\<close>

definition FetchPgImp ::
  "(page_id_t \<Rightarrow> byte list) \<Rightarrow> page_id_t \<Rightarrow> BufferPoolManagerInstance \<Rightarrow>
     BufferPoolManagerInstance \<times> frame_id_t option" where
  "FetchPgImp disk page_id' s =
     (case map_of (page_table s) page_id' of
        Some frame_id \<Rightarrow>
          let page = pages s ! frame_id
          in (s\<lparr>pages := (pages s)[frame_id := page\<lparr>pin_count := pin_count page + 1\<rparr>],
                replacer := Pin frame_id (replacer s)\<rparr>, Some frame_id)
      | None \<Rightarrow>
          (case find_replace s of
             (s1, None) \<Rightarrow> (s1, None)
           | (s1, Some replace_fid) \<Rightarrow>
               let replacePage = pages s1 ! replace_fid;
                   s2 = (if is_dirty replacePage then
                           s1\<lparr>effects := effects s1 @
                                 [WritePage (page_id replacePage) (data replacePage)]\<rparr>
                         else s1);
                   s3 = s2\<lparr>page_table :=
                              AList.update page_id' replace_fid
                                (AList.delete (page_id replacePage) (page_table s2)),
                            effects := effects s2 @
                              [PageTableErase (page_id replacePage), ReadPage page_id']\<rparr>;
                   s4 = s3\<lparr>pages := (pages s3)
                              [replace_fid := replacePage
                                 \<lparr>data := disk page_id',
                                  page_id := page_id',
                                  pin_count := pin_count replacePage + 1,
                                  is_dirty := False\<rparr>],
                            replacer := Pin replace_fid (replacer s3)\<rparr>
               in (s4, Some replace_fid)))"

text \<open>
  \<open>DeletePgImp\<close>, with the calls in the order of the code: the flush of a dirty page,
  \<open>DeallocatePage\<close>, the erasure from the page table; then the frame is reset and pushed
  to the back of the free list.
\<close>

definition DeletePgImp ::
  "page_id_t \<Rightarrow> BufferPoolManagerInstance \<Rightarrow> BufferPoolManagerInstance \<times> bool" where
  "DeletePgImp page_id' s =
     (case map_of (page_table s) page_id' of
        None \<Rightarrow> (s, True)
      | Some frame_id \<Rightarrow>
          let page = pages s ! frame_id
          in if 0 < pin_count page then (s, False)
             else
               let s1 = (if is_dirty page then fst (FlushPgImp page_id' s) else s);
                   s2 = s1\<lparr>effects := effects s1 @ [DeallocatePage page_id']\<rparr>;
                   s3 = s2\<lparr>page_table := AList.delete page_id' (page_table s2),
                            effects := effects s2 @ [PageTableErase page_id']\<rparr>;
                   s4 = s3\<lparr>pages := (pages s3)
                              [frame_id := page
                                 \<lparr>is_dirty := False, pin_count := 0,
                                  page_id := INVALID_PAGE_ID\<rparr>],
                            free_list := free_list s3 @ [frame_id]\<rparr>
               in (s4, True))"

text \<open>
  \<open>UnpinPgImp\<close>: the dirty bit is written first, then the pin count is tested.
\<close>

definition UnpinPgImp ::
  "page_id_t \<Rightarrow> bool \<Rightarrow> BufferPoolManagerInstance \<Rightarrow> BufferPoolManagerInstance \<times> bool"
  where
  "UnpinPgImp page_id' is_dirty' s =
     (case map_of (page_table s) page_id' of
        None \<Rightarrow> (s, False)
      | Some unpinned_Fid \<Rightarrow>
          let s1 = (if is_dirty' then
                      s\<lparr>pages := (pages s)
                           [unpinned_Fid := (pages s ! unpinned_Fid)\<lparr>is_dirty := True\<rparr>]\<rparr>
                    else s);
              unpinned_page = pages s1 ! unpinned_Fid
          in if pin_count unpinned_page = 0 then (s1, False)
             else
               let s2 = s1\<lparr>pages := (pages s1)
                              [unpinned_Fid := unpinned_page
                                 \<lparr>pin_count := pin_count unpinned_page - 1\<rparr>]\<rparr>;
                   s3 = (if pin_count (pages s2 ! unpinned_Fid) = 0 then
                           s2\<lparr>replacer := Unpin unpinned_Fid (replacer s2)\<rparr>
                         else s2)
               in (s3, True))"

text \<open>
  The page table is consistent when its keys are distinct, as those of a map are, and
  every entry names a valid page id and a frame of the pool that holds that page
  (section 8: "\<open>page_table[page_id]\<close> points to that frame").
  The frames that can be handed out are idle when every frame in the free list or in the
  replacer is a frame of the pool with pin count zero (section 3: a pinned frame is in
  neither).
\<close>

definition page_table_consistent :: "BufferPoolManagerInstance \<Rightarrow> bool" where
  "page_table_consistent s =
     (distinct (map fst (page_table s)) \<and>
      list_all
        (\<lambda>e. fst e \<noteq> INVALID_PAGE_ID \<and> snd e < length (pages s) \<and>
             page_id (pages s ! snd e) = fst e)
        (page_table s))"

definition idle_frames_unpinned :: "BufferPoolManagerInstance \<Rightarrow> bool" where
  "idle_frames_unpinned s =
     list_all (\<lambda>f. f < length (pages s) \<and> pin_count (pages s ! f) = 0)
       (free_list s @ lru (replacer s))"

definition all_zero :: "byte list \<Rightarrow> bool" where
  "all_zero bytes = list_all (\<lambda>b. b = 0) bytes"

definition returned_page_id ::
  "failure + (page_id_t \<times> BufferPoolManagerInstance) \<Rightarrow> page_id_t option" where
  "returned_page_id r = (case r of Inl e \<Rightarrow> None | Inr (p, s) \<Rightarrow> Some p)"

section \<open>Update and insert executors\<close>

text \<open>
  The executors work on classes whose sources are absent: tuples, record ids, the table
  heap, the indexes, the transaction and the lock manager. A tuple is the list of its
  integer column values, a record id a page id with a slot number (section 3).
\<close>

type_synonym Tuple = "int list"

datatype RID = RID int nat

text \<open>
  Modelled from the spec: the class \<open>Transaction\<close> with its states and its index write
  records (\<open>transaction.h\<close> is not among the sources). Section 3: the state, one of
  growing, shrinking, committed and aborted; the two lock sets "of RIDs this transaction
  currently holds"; the index write set, to which "executors append on successful
  mutation". An index write record has the fields that the executors pass to
  \<open>emplace_back\<close>, but for the catalog.
\<close>

datatype TransactionState = GROWING | SHRINKING | COMMITTED | ABORTED

datatype WType = INSERT | DELETE | UPDATE

record IndexWriteRecord =
  iw_rid :: RID
  iw_table_oid :: nat
  iw_wtype :: WType
  iw_tuple :: Tuple
  iw_old_tuple :: Tuple
  iw_index_oid :: nat

record Transaction =
  txn_state :: TransactionState
  shared_lock_set :: "RID set"
  exclusive_lock_set :: "RID set"
  index_write_set :: "IndexWriteRecord list"

text \<open>
  Modelled from the spec: \<open>Transaction::IsSharedLocked\<close> and
  \<open>Transaction::IsExclusiveLocked\<close>, membership in the lock sets of section 3.
\<close>

definition IsSharedLocked :: "Transaction \<Rightarrow> RID \<Rightarrow> bool" where
  "IsSharedLocked txn rid = (rid \<in> shared_lock_set txn)"

definition IsExclusiveLocked :: "Transaction \<Rightarrow> RID \<Rightarrow> bool" where
  "IsExclusiveLocked txn rid = (rid \<in> exclusive_lock_set txn)"

text \<open>
  Modelled from the spec: \<open>LockManager::LockExclusive\<close> (only the header of the lock
  manager is among the sources). Section 4.4: the call either is granted, adds the record
  id to the exclusive lock set and returns true, or the transaction is aborted and the
  call returns false. Which of the two happens depends on the other transactions; it is
  the parameter \<open>grant\<close>.
\<close>

definition LockExclusive :: "bool \<Rightarrow> Transaction \<Rightarrow> RID \<Rightarrow> Transaction \<times> bool" where
  "LockExclusive grant txn rid =
     (if grant then
        (txn\<lparr>exclusive_lock_set := insert rid (exclusive_lock_set txn)\<rparr>, True)
      else (txn\<lparr>txn_state := ABORTED\<rparr>, False))"

text \<open>
  Modelled from the spec: \<open>LockManager::LockUpgrade\<close>. Section 4.4: on grant the record
  id moves from the shared to the exclusive lock set and the call returns true; otherwise
  the transaction is aborted and the call returns false.
\<close>

definition LockUpgrade :: "bool \<Rightarrow> Transaction \<Rightarrow> RID \<Rightarrow> Transaction \<times> bool" where
  "LockUpgrade grant txn rid =
     (if grant then
        (txn\<lparr>shared_lock_set := shared_lock_set txn - {rid},
             exclusive_lock_set := insert rid (exclusive_lock_set txn)\<rparr>, True)
      else (txn\<lparr>txn_state := ABORTED\<rparr>, False))"

text \<open>
  The calls an executor makes on its collaborators, in order. The calls on the table heap
  carry the transaction that the executor passes to them, as it is at the call.
\<close>

record IndexInfo =
  index_oid :: nat
  key_attrs :: "nat list"

datatype call =
  LockUpgradeCall RID
| LockExclusiveCall RID
| UpdateTupleCall Tuple RID Transaction
| InsertTupleCall Tuple Transaction
| DeleteEntryCall nat Tuple RID
| InsertEntryCall nat Tuple RID

datatype UpdateType = UpdateAdd | UpdateSet

record UpdateInfo =
  update_type :: UpdateType
  update_val :: int

text \<open>
  What one call of \<open>Next\<close> meets outside the executor: what the child executor yields
  (nothing when its \<open>Next\<close> returns false), what the table heap answers to \<open>GetTuple\<close>,
  \<open>UpdateTuple\<close> and \<open>InsertTuple\<close> (for the last one the new record id, or nothing when
  it returns false), whether the lock manager grants, the plan (update attributes, raw
  values), the table's oid, column count and indexes, and two functions of classes whose
  sources are absent: \<open>Tuple::KeyFromTuple\<close> for an index and \<open>Value::Add\<close>.
\<close>

record Env =
  child_Next :: "(Tuple \<times> RID) option"
  GetTuple :: "RID \<Rightarrow> Tuple option"
  UpdateTuple :: bool
  InsertTuple :: "RID option"
  lock_granted :: bool
  update_attrs :: "nat \<Rightarrow> UpdateInfo option"
  IsRawInsert :: bool
  RawValues :: "Tuple list"
  table_oid :: nat
  column_count :: nat
  table_indexes :: "IndexInfo list"
  KeyFromTuple :: "Tuple \<Rightarrow> IndexInfo \<Rightarrow> Tuple"
  Value_Add :: "int \<Rightarrow> int \<Rightarrow> int"

definition GenerateUpdatedTuple :: "Env \<Rightarrow> Tuple \<Rightarrow> Tuple" where
  "GenerateUpdatedTuple env src_tuple =
     map (\<lambda>idx.
            case update_attrs env idx of
              None \<Rightarrow> src_tuple ! idx
            | Some info \<Rightarrow>
                (case update_type info of
                   UpdateAdd \<Rightarrow> Value_Add env (src_tuple ! idx) (update_val info)
                 | UpdateSet \<Rightarrow> update_val info))
       [0 ..< column_count env]"

text \<open>
  The body of the \<open>for_each\<close> over the table's indexes in \<open>UpdateExecutor::Next\<close>, on the
  pair of the transaction and the calls made so far.
\<close>

definition update_index ::
  "Env \<Rightarrow> Tuple \<Rightarrow> Tuple \<Rightarrow> RID \<Rightarrow> Transaction \<times> call list \<Rightarrow> IndexInfo \<Rightarrow>
     Transaction \<times> call list" where
  "update_index env to_update_tuple updated_tuple emit_rid acc index =
     (case acc of
        (txn, calls) \<Rightarrow>
          (txn\<lparr>index_write_set := index_write_set txn @
                 [\<lparr>iw_rid = emit_rid, iw_table_oid = table_oid env, iw_wtype = UPDATE,
                   iw_tuple = updated_tuple, iw_old_tuple = to_update_tuple,
                   iw_index_oid = index_oid index\<rparr>]\<rparr>,
           calls @
             [DeleteEntryCall (index_oid index)
                (KeyFromTuple env to_update_tuple index) emit_rid,
              InsertEntryCall (index_oid index)
                (KeyFromTuple env updated_tuple index) emit_rid]))"

text \<open>
  \<open>UpdateExecutor::Next\<close>: the transaction after the call, the calls made, and the
  returned value.
\<close>

definition UpdateExecutor_Next :: "Env \<Rightarrow> Transaction \<Rightarrow> Transaction \<times> call list \<times> bool"
  where
  "UpdateExecutor_Next env txn =
     (case child_Next env of
        None \<Rightarrow> (txn, [], False)
      | Some (dummy_tuple, emit_rid) \<Rightarrow>
          (case GetTuple env emit_rid of
             None \<Rightarrow> (txn, [], False)
           | Some to_update_tuple \<Rightarrow>
               let updated_tuple = GenerateUpdatedTuple env to_update_tuple;
                   locked =
                     (if IsSharedLocked txn emit_rid then
                        (case LockUpgrade (lock_granted env) txn emit_rid of
                           (txn', ok) \<Rightarrow> (txn', [LockUpgradeCall emit_rid], ok))
                      else if \<not> IsExclusiveLocked txn emit_rid then
                        (case LockExclusive (lock_granted env) txn emit_rid of
                           (txn', ok) \<Rightarrow> (txn', [LockExclusiveCall emit_rid], ok))
                      else (txn, [], True))
               in (case locked of
                     (txn1, calls1, ok) \<Rightarrow>
                       if \<not> ok then (txn1, calls1, False)
                       else
                         let calls2 = calls1 @ [UpdateTupleCall updated_tuple emit_rid txn1];
                             updated = UpdateTuple env
                         in if updated then
                              (case foldl
                                      (update_index env to_update_tuple updated_tuple
                                         emit_rid)
                                      (txn1, calls2) (table_indexes env) of
                                 (txn3, calls3) \<Rightarrow> (txn3, calls3, updated))
                            else (txn1, calls2, updated))))"

text \<open>
  The body of the \<open>for_each\<close> in \<open>InsertExecutor::Next\<close>, and \<open>InsertExecutor::Next\<close>
  itself, which also has the member \<open>next_insert\<close> as state: the transaction, the new
  \<open>next_insert\<close>, the calls made, \<open>*rid\<close> when the table heap has set it, and the returned
  value.
\<close>

definition insert_index ::
  "Env \<Rightarrow> Tuple \<Rightarrow> RID \<Rightarrow> Transaction \<times> call list \<Rightarrow> IndexInfo \<Rightarrow>
     Transaction \<times> call list" where
  "insert_index env to_insert_tuple rid acc index =
     (case acc of
        (txn, calls) \<Rightarrow>
          (txn\<lparr>index_write_set := index_write_set txn @
                 [\<lparr>iw_rid = rid, iw_table_oid = table_oid env, iw_wtype = INSERT,
                   iw_tuple = to_insert_tuple, iw_old_tuple = [],
                   iw_index_oid = index_oid index\<rparr>]\<rparr>,
           calls @
             [InsertEntryCall (index_oid index)
                (KeyFromTuple env to_insert_tuple index) rid]))"

definition InsertExecutor_Next ::
  "Env \<Rightarrow> Transaction \<Rightarrow> nat \<Rightarrow> Transaction \<times> nat \<times> call list \<times> RID option \<times> bool"
  where
  "InsertExecutor_Next env txn next_insert =
     (case (if IsRawInsert env then
              (if length (RawValues env) \<le> next_insert then None
               else Some (RawValues env ! next_insert, next_insert + 1))
            else
              (case child_Next env of
                 None \<Rightarrow> None
               | Some (t, emit_rid) \<Rightarrow> Some (t, next_insert))) of
        None \<Rightarrow> (txn, next_insert, [], None, False)
      | Some (to_insert_tuple, next_insert') \<Rightarrow>
          (case InsertTuple env of
             None \<Rightarrow>
               (txn, next_insert', [InsertTupleCall to_insert_tuple txn], None, False)
           | Some rid \<Rightarrow>
               (case LockExclusive (lock_granted env) txn rid of
                  (txn1, ignored) \<Rightarrow>
                    (case foldl (insert_index env to_insert_tuple rid)
                            (txn1,
                             [InsertTupleCall to_insert_tuple txn, LockExclusiveCall rid])
                            (table_indexes env) of
                       (txn2, calls2) \<Rightarrow>
                         (txn2, next_insert', calls2, Some rid, True)))))"

text \<open>
  What the two \<open>for_each\<close> loops add for a list of indexes: the calls on the indexes and
  the records of the index write set.
\<close>

definition is_lock_call :: "call \<Rightarrow> bool" where
  "is_lock_call c =
     (case c of LockUpgradeCall r \<Rightarrow> True | LockExclusiveCall r \<Rightarrow> True | _ \<Rightarrow> False)"

definition is_UpdateTupleCall :: "call \<Rightarrow> bool" where
  "is_UpdateTupleCall c = (case c of UpdateTupleCall t r x \<Rightarrow> True | _ \<Rightarrow> False)"

definition update_index_calls :: "Env \<Rightarrow> Tuple \<Rightarrow> Tuple \<Rightarrow> RID \<Rightarrow> IndexInfo list \<Rightarrow> call list"
  where
  "update_index_calls env old new rid indexes =
     concat (map (\<lambda>index.
        [DeleteEntryCall (index_oid index) (KeyFromTuple env old index) rid,
         InsertEntryCall (index_oid index) (KeyFromTuple env new index) rid]) indexes)"

definition update_index_records ::
  "Env \<Rightarrow> Tuple \<Rightarrow> Tuple \<Rightarrow> RID \<Rightarrow> IndexInfo list \<Rightarrow> IndexWriteRecord list" where
  "update_index_records env old new rid indexes =
     map (\<lambda>index.
        \<lparr>iw_rid = rid, iw_table_oid = table_oid env, iw_wtype = UPDATE, iw_tuple = new,
         iw_old_tuple = old, iw_index_oid = index_oid index\<rparr>) indexes"

definition insert_index_calls :: "Env \<Rightarrow> Tuple \<Rightarrow> RID \<Rightarrow> IndexInfo list \<Rightarrow> call list" where
  "insert_index_calls env t rid indexes =
     map (\<lambda>index. InsertEntryCall (index_oid index) (KeyFromTuple env t index) rid) indexes"

definition insert_index_records ::
  "Env \<Rightarrow> Tuple \<Rightarrow> RID \<Rightarrow> IndexInfo list \<Rightarrow> IndexWriteRecord list" where
  "insert_index_records env t rid indexes =
     map (\<lambda>index.
        \<lparr>iw_rid = rid, iw_table_oid = table_oid env, iw_wtype = INSERT, iw_tuple = t,
         iw_old_tuple = [], iw_index_oid = index_oid index\<rparr>) indexes"

section \<open>The pools that can be reached\<close>

text \<open>
  The invariant of the pool: the page table is consistent, the frames of the free list
  and of the replacer are unpinned, and the free list has no frame twice and no frame
  that holds a resident page.
\<close>

definition pool_invariant :: "BufferPoolManagerInstance \<Rightarrow> bool" where
  "pool_invariant s =
     (page_table_consistent s \<and> idle_frames_unpinned s \<and> distinct (free_list s) \<and>
      list_all (\<lambda>f. f \<notin> snd ` set (page_table s)) (free_list s))"

text \<open>
  The pools that the constructor and the operations on pages reach, when the callers pass
  valid page ids and the allocator has not reached the invalid page id.
\<close>

inductive reachable :: "BufferPoolManagerInstance \<Rightarrow> bool" where
  constructed:
    "new_BufferPoolManagerInstance k num idx = Inr s \<Longrightarrow> reachable s"
| new_page:
    "reachable s \<Longrightarrow> next_page_id s \<noteq> INVALID_PAGE_ID \<Longrightarrow> NewPgImp s = Inr (s', r) \<Longrightarrow>
       reachable s'"
| fetch_page:
    "reachable s \<Longrightarrow> pid \<noteq> INVALID_PAGE_ID \<Longrightarrow> FetchPgImp disk pid s = (s', r) \<Longrightarrow>
       reachable s'"
| unpin_page:
    "reachable s \<Longrightarrow> UnpinPgImp pid d s = (s', b) \<Longrightarrow> reachable s'"
| delete_page:
    "reachable s \<Longrightarrow> DeletePgImp pid s = (s', b) \<Longrightarrow> reachable s'"

section \<open>Pools, environments and transactions of the examples\<close>

text \<open>The pools of the examples, as the constructor builds them.\<close>

definition wide_pool :: BufferPoolManagerInstance where
  "wide_pool =
     \<lparr>num_instances = 2147483648, instance_index = 0, next_page_id = 0,
      pages = [new_Page], page_table = [], free_list = [0],
      replacer = \<lparr>lru = [], capacity = 1\<rparr>, effects = []\<rparr>"

definition odd_pool :: BufferPoolManagerInstance where
  "odd_pool =
     \<lparr>num_instances = 2, instance_index = 1, next_page_id = 1,
      pages = [new_Page], page_table = [], free_list = [0],
      replacer = \<lparr>lru = [], capacity = 1\<rparr>, effects = []\<rparr>"

text \<open>
  A pool of one frame after the constructor and one \<open>NewPgImp\<close>: page 0 is in frame 0,
  pinned once.
\<close>

definition pinned_pool :: BufferPoolManagerInstance where
  "pinned_pool =
     \<lparr>num_instances = 1, instance_index = 0, next_page_id = 1,
      pages = [\<lparr>page_id = 0, data = replicate PAGE_SIZE 0, pin_count = 1,
                is_dirty = False\<rparr>],
      page_table = [(0, 0)], free_list = [],
      replacer = \<lparr>lru = [], capacity = 1\<rparr>, effects = []\<rparr>"

text \<open>
  The pool of one frame after the constructor, \<open>NewPgImp\<close> and \<open>UnpinPgImp(0, false)\<close>:
  page 0 is resident in frame 0, clean, with pin count zero, and the frame is in the
  replacer.
\<close>

definition unpinned_pool :: BufferPoolManagerInstance where
  "unpinned_pool =
     \<lparr>num_instances = 1, instance_index = 0, next_page_id = 1,
      pages = [\<lparr>page_id = 0, data = replicate PAGE_SIZE 0, pin_count = 0,
                is_dirty = False\<rparr>],
      page_table = [(0, 0)], free_list = [],
      replacer = \<lparr>lru = [0], capacity = 1\<rparr>, effects = []\<rparr>"

definition fresh_pool :: BufferPoolManagerInstance where
  "fresh_pool =
     \<lparr>num_instances = 1, instance_index = 0, next_page_id = 0,
      pages = [new_Page], page_table = [], free_list = [0],
      replacer = \<lparr>lru = [], capacity = 1\<rparr>, effects = []\<rparr>"

text \<open>
  A disk on which every page starts with the byte 1, and the pools of one frame reached
  from the constructor by \<open>FetchPgImp(5)\<close>, then \<open>UnpinPgImp(5, false)\<close>, then
  \<open>NewPgImp\<close>.
\<close>

definition stale_disk :: "page_id_t \<Rightarrow> byte list" where
  "stale_disk p = 1 # replicate (PAGE_SIZE - 1) 0"

definition fetched_pool :: BufferPoolManagerInstance where
  "fetched_pool =
     \<lparr>num_instances = 1, instance_index = 0, next_page_id = 0,
      pages = [\<lparr>page_id = 5, data = 1 # replicate (PAGE_SIZE - 1) 0, pin_count = 1,
                is_dirty = False\<rparr>],
      page_table = [(5, 0)], free_list = [],
      replacer = \<lparr>lru = [], capacity = 1\<rparr>,
      effects = [PageTableErase INVALID_PAGE_ID, ReadPage 5]\<rparr>"

definition stale_pool :: BufferPoolManagerInstance where
  "stale_pool =
     \<lparr>num_instances = 1, instance_index = 0, next_page_id = 0,
      pages = [\<lparr>page_id = 5, data = 1 # replicate (PAGE_SIZE - 1) 0, pin_count = 0,
                is_dirty = False\<rparr>],
      page_table = [(5, 0)], free_list = [],
      replacer = \<lparr>lru = [0], capacity = 1\<rparr>,
      effects = [PageTableErase INVALID_PAGE_ID, ReadPage 5]\<rparr>"

definition renewed_pool :: BufferPoolManagerInstance where
  "renewed_pool =
     \<lparr>num_instances = 1, instance_index = 0, next_page_id = 1,
      pages = [\<lparr>page_id = 0, data = 1 # replicate (PAGE_SIZE - 1) 0, pin_count = 1,
                is_dirty = False\<rparr>],
      page_table = [(0, 0)], free_list = [],
      replacer = \<lparr>lru = [], capacity = 1\<rparr>,
      effects = [PageTableErase INVALID_PAGE_ID, ReadPage 5, PageTableErase 5]\<rparr>"

text \<open>
  The pool of one frame after the constructor, \<open>NewPgImp\<close> and \<open>UnpinPgImp(0, true)\<close>:
  page 0 is resident in frame 0, dirty and unpinned, and the frame is in the replacer.
\<close>

definition dirty_pool :: BufferPoolManagerInstance where
  "dirty_pool =
     \<lparr>num_instances = 1, instance_index = 0, next_page_id = 1,
      pages = [\<lparr>page_id = 0, data = replicate PAGE_SIZE 0, pin_count = 0,
                is_dirty = True\<rparr>],
      page_table = [(0, 0)], free_list = [],
      replacer = \<lparr>lru = [0], capacity = 1\<rparr>, effects = []\<rparr>"

text \<open>
  An environment and transactions for the examples: a table of one column with one
  index, a child executor that yields the record \<open>(3, 0)\<close>, whose tuple is \<open>[10]\<close>, and
  an update that adds 5 to column 0.
\<close>

definition example_env :: Env where
  "example_env =
     \<lparr>child_Next = Some ([10], RID 3 0),
      GetTuple = (\<lambda>r. if r = RID 3 0 then Some [10] else None),
      UpdateTuple = True,
      InsertTuple = Some (RID 4 1),
      lock_granted = True,
      update_attrs = (\<lambda>i. if i = 0 then Some \<lparr>update_type = UpdateAdd, update_val = 5\<rparr>
                           else None),
      IsRawInsert = False,
      RawValues = [],
      table_oid = 1,
      column_count = 1,
      table_indexes = [\<lparr>index_oid = 0, key_attrs = [0]\<rparr>],
      KeyFromTuple = (\<lambda>t index. map (\<lambda>i. t ! i) (key_attrs index)),
      Value_Add = (\<lambda>a b. a + b)\<rparr>"

definition reader_txn :: Transaction where
  "reader_txn =
     \<lparr>txn_state = GROWING, shared_lock_set = {RID 3 0}, exclusive_lock_set = {},
      index_write_set = []\<rparr>"

definition new_txn :: Transaction where
  "new_txn =
     \<lparr>txn_state = GROWING, shared_lock_set = {}, exclusive_lock_set = {},
      index_write_set = []\<rparr>"

section \<open>Properties of the compatibility scan\<close>



text \<open>In any queue that holds \<open>R\<close>, the rule on the requests before \<open>R\<close> is sufficient.\<close>

lemma compatible_by_rule_scan:
  "compatible_by_rule pre R \<Longrightarrow> IsLockCompatible_scan (pre @ R # post) R"
  by (induction pre) (auto simp: compatible_by_rule_def rule_holds_for_def)





section \<open>Page id allocation\<close>

lemma AllocatePage_Inr_iff:
  "AllocatePage s = Inr (p, s') \<longleftrightarrow>
     (next_page_id s mod num_instances s = instance_index s \<and> p = next_page_id s \<and>
      s' = s\<lparr>next_page_id := next_page_id s + num_instances s\<rparr>)"
  by (auto simp: AllocatePage_def ValidatePageId_def Let_def)

lemma sint_small:
  assumes "unat (p :: 32 word) < 2 ^ 31"
  shows "sint p = int (unat p)"
proof -
  have lt: "uint p < 2 ^ 31"
    using assms by (metis of_nat_less_numeral_power_cancel_iff of_nat_unat)
  have "- (2 ^ 31) \<le> (0::int)" by simp
  also have "0 \<le> uint p" by simp
  finally have "- (2 ^ 31) \<le> uint p" .
  with lt have "signed_take_bit 31 (uint p) = uint p"
    by (intro signed_take_bit_int_eq_self) simp_all
  then show ?thesis by (simp add: sint_uint)
qed

lemma AllocatePages_closed_form:
  "AllocatePages n s = Inr (ps, s') \<Longrightarrow>
     s' = s\<lparr>next_page_id := next_page_id s + of_nat n * num_instances s\<rparr>"
proof (induction n arbitrary: s ps)
  case 0
  then show ?case by simp
next
  case (Suc n)
  from Suc.prems obtain p s1 ps' where
    a: "AllocatePage s = Inr (p, s1)" and b: "AllocatePages n s1 = Inr (ps', s')"
    by (auto split: sum.splits prod.splits)
  from a have s1: "s1 = s\<lparr>next_page_id := next_page_id s + num_instances s\<rparr>"
    by (simp add: AllocatePage_Inr_iff)
  from Suc.IH [OF b] show ?case
    by (simp add: s1 algebra_simps)
qed

text \<open>
  While the ids stay below \<open>2 ^ 32\<close> no addition wraps, every assertion of
  \<open>ValidatePageId\<close> holds, and all the calls return.
\<close>

lemma AllocatePages_succeed:
  assumes "next_page_id s mod num_instances s = instance_index s"
    and "unat (next_page_id s) + n * unat (num_instances s) < 2 ^ 32"
  shows "\<exists>ps s'. AllocatePages n s = Inr (ps, s') \<and>
           unat (next_page_id s') = unat (next_page_id s) + n * unat (num_instances s) \<and>
           next_page_id s' mod num_instances s' = instance_index s'"
  using assms
proof (induction n arbitrary: s)
  case 0
  then show ?case by simp
next
  case (Suc n)
  let ?s1 = "s\<lparr>next_page_id := next_page_id s + num_instances s\<rparr>"
  have a: "AllocatePage s = Inr (next_page_id s, ?s1)"
    using Suc.prems(1) by (simp add: AllocatePage_Inr_iff)
  have small: "unat (next_page_id s) + unat (num_instances s) < 2 ^ 32"
    using Suc.prems(2) by simp
  then have u: "unat (next_page_id s + num_instances s) =
      unat (next_page_id s) + unat (num_instances s)"
    by (simp add: unat_add_lem [THEN iffD1])
  have "unat ((next_page_id s + num_instances s) mod num_instances s) =
      unat (instance_index s)"
    using Suc.prems(1) [symmetric] by (simp add: unat_mod u)
  then have m: "next_page_id ?s1 mod num_instances ?s1 = instance_index ?s1"
    by (simp add: word_unat_eq_iff)
  have bound: "unat (next_page_id ?s1) + n * unat (num_instances ?s1) < 2 ^ 32"
    using Suc.prems(2) by (simp add: u)
  from Suc.IH [OF m bound] a show ?case
    by (auto simp: u)
qed

lemma new_BufferPoolManagerInstance_Inr:
  assumes "new_BufferPoolManagerInstance k num idx = Inr s0"
  shows "num_instances s0 = num \<and> instance_index s0 = idx \<and> next_page_id s0 = idx \<and>
         0 < num \<and> idx < num"
  using assms by (auto simp: new_BufferPoolManagerInstance_def split: if_splits)

lemma fresh_pool_constructed: "new_BufferPoolManagerInstance 1 1 0 = Inr fresh_pool"
  by (simp add: new_BufferPoolManagerInstance_def fresh_pool_def)

text \<open>
  In the pool of a single instance every page id passes \<open>ValidatePageId\<close>, so every call
  returns, and the \<open>n\<close>-th page id is \<open>n\<close> on 32 bits.
\<close>

lemma AllocatePages_single_instance:
  assumes "num_instances s = 1" and "instance_index s = 0"
  shows "\<exists>ps. AllocatePages n s =
           Inr (ps, s\<lparr>next_page_id := next_page_id s + of_nat n\<rparr>)"
  using assms
proof (induction n arbitrary: s)
  case 0
  show ?case by simp
next
  case (Suc n)
  let ?s1 = "s\<lparr>next_page_id := next_page_id s + 1\<rparr>"
  have a: "AllocatePage s = Inr (next_page_id s, ?s1)"
    using Suc.prems by (simp add: AllocatePage_Inr_iff)
  from Suc.IH [of ?s1] Suc.prems obtain ps where
    "AllocatePages n ?s1 = Inr (ps, ?s1\<lparr>next_page_id := next_page_id ?s1 + of_nat n\<rparr>)"
    by auto
  with a show ?case
    by (simp add: add.assoc)
qed

lemma fresh_pool_nth_AllocatePage:
  "returned_page_id (nth_AllocatePage n fresh_pool) = Some (of_nat n)"
proof -
  from AllocatePages_single_instance [of fresh_pool n] obtain ps where
    "AllocatePages n fresh_pool =
       Inr (ps, fresh_pool\<lparr>next_page_id := next_page_id fresh_pool + of_nat n\<rparr>)"
    by (auto simp: fresh_pool_def)
  then show ?thesis
    by (simp add: nth_AllocatePage_def AllocatePage_def ValidatePageId_def
        returned_page_id_def fresh_pool_def)
qed

text \<open>
  Claim C6, as stated, on two pools. On the pool constructed with
  \<open>num_instances = 2 ^ 31\<close> and \<open>instance_index = 0\<close>, the calls number 0 and 1 return 0
  and \<open>2 ^ 31\<close> (the page id \<open>-2 ^ 31\<close> when read as signed), the addition of
  \<open>num_instances\<close> wraps around, and the call number 2 returns 0 again, not
  \<open>0 + 2 * 2 ^ 31\<close>, whether the page id is read as a signed or as an unsigned number. On
  the pool of a single instance (\<open>num_instances = 1\<close>, \<open>instance_index = 0\<close>) the call
  number \<open>2 ^ 32\<close> returns 0, not \<open>2 ^ 32\<close>.
\<close>

theorem AllocatePage_nth_counterexample:
  "new_BufferPoolManagerInstance 1 2147483648 0 = Inr wide_pool
   \<and> returned_page_id (nth_AllocatePage 0 wide_pool) = Some 0
   \<and> returned_page_id (nth_AllocatePage (Suc 0) wide_pool) = Some 2147483648
   \<and> returned_page_id (nth_AllocatePage (Suc (Suc 0)) wide_pool) = Some 0
   \<and> sint (0 :: page_id_t) \<noteq>
       uint (0 :: 32 word) + int (Suc (Suc 0)) * uint (2147483648 :: 32 word)
   \<and> uint (0 :: page_id_t) \<noteq>
       uint (0 :: 32 word) + int (Suc (Suc 0)) * uint (2147483648 :: 32 word)
   \<and> new_BufferPoolManagerInstance 1 1 0 = Inr fresh_pool
   \<and> returned_page_id (nth_AllocatePage 4294967296 fresh_pool) = Some 0
   \<and> sint (0 :: page_id_t) \<noteq> uint (0 :: 32 word) + 4294967296 * uint (1 :: 32 word)
   \<and> uint (0 :: page_id_t) \<noteq> uint (0 :: 32 word) + 4294967296 * uint (1 :: 32 word)"
proof -
  have wide: "new_BufferPoolManagerInstance 1 2147483648 0 = Inr wide_pool
   \<and> returned_page_id (nth_AllocatePage 0 wide_pool) = Some 0
   \<and> returned_page_id (nth_AllocatePage (Suc 0) wide_pool) = Some 2147483648
   \<and> returned_page_id (nth_AllocatePage (Suc (Suc 0)) wide_pool) = Some 0"
    by (simp add: new_BufferPoolManagerInstance_def wide_pool_def returned_page_id_def
        nth_AllocatePage_def AllocatePage_def ValidatePageId_def)
  have single: "returned_page_id (nth_AllocatePage 4294967296 fresh_pool) = Some 0"
    using fresh_pool_nth_AllocatePage [of 4294967296] by simp
  from wide single fresh_pool_constructed show ?thesis by simp
qed

text \<open>
  Claim C6, amended: for every pool constructed with \<open>(num_instances, instance_index)\<close>,
  the \<open>n\<close>-th call of \<open>AllocatePage\<close> (counting from 0), when it returns, returns
  \<open>instance_index + n * num_instances\<close> computed in 32-bit arithmetic (modulo \<open>2 ^ 32\<close>), a
  page id whose unsigned remainder modulo \<open>num_instances\<close> is \<open>instance_index\<close> (the
  assertion of \<open>ValidatePageId\<close>), and leaves \<open>next_page_id\<close> advanced by \<open>num_instances\<close>
  past it. As long as \<open>instance_index + n * num_instances < 2 ^ 31\<close> the call does return,
  and the page id is the number \<open>instance_index + n * num_instances\<close> itself.
\<close>

theorem AllocatePage_nth_call:
  assumes ctor: "new_BufferPoolManagerInstance k num idx = Inr s0"
  shows "(nth_AllocatePage n s0 = Inr (p, s') \<longrightarrow>
            p = idx + of_nat n * num \<and> p mod num = idx \<and> next_page_id s' = p + num)
       \<and> (unat idx + n * unat num < 2 ^ 31 \<longrightarrow>
            (\<exists>q t. nth_AllocatePage n s0 = Inr (q, t) \<and>
               sint q = int (unat idx + n * unat num) \<and>
               unat q mod unat num = unat idx \<and>
               next_page_id t = q + num))"
proof -
  note c = new_BufferPoolManagerInstance_Inr [OF ctor]
  have modular: "p = idx + of_nat n * num \<and> p mod num = idx \<and> next_page_id s' = p + num"
    if r: "nth_AllocatePage n s0 = Inr (p, s')"
  proof -
    from r obtain ps s1 where a: "AllocatePages n s0 = Inr (ps, s1)"
      and b: "AllocatePage s1 = Inr (p, s')"
      by (auto simp: nth_AllocatePage_def split: sum.splits prod.splits)
    have s1: "s1 = s0\<lparr>next_page_id := next_page_id s0 + of_nat n * num_instances s0\<rparr>"
      using a by (rule AllocatePages_closed_form)
    from b show ?thesis
      by (simp add: AllocatePage_Inr_iff s1 c)
  qed
  have exact: "\<exists>q t. nth_AllocatePage n s0 = Inr (q, t) \<and>
               sint q = int (unat idx + n * unat num) \<and>
               unat q mod unat num = unat idx \<and>
               next_page_id t = q + num"
    if small: "unat idx + n * unat num < 2 ^ 31"
  proof -
    have idx: "next_page_id s0 mod num_instances s0 = instance_index s0"
      using c by (simp add: mod_word_less)
    have bound: "unat (next_page_id s0) + n * unat (num_instances s0) < 2 ^ 32"
      using c small by simp
    from AllocatePages_succeed [OF idx bound] obtain ps s1 where
      a: "AllocatePages n s0 = Inr (ps, s1)"
      and u: "unat (next_page_id s1) = unat idx + n * unat num"
      and m: "next_page_id s1 mod num_instances s1 = instance_index s1"
      using c by auto
    have s1: "s1 = s0\<lparr>next_page_id := next_page_id s0 + of_nat n * num_instances s0\<rparr>"
      using a by (rule AllocatePages_closed_form)
    let ?q = "next_page_id s1"
    let ?t = "s1\<lparr>next_page_id := next_page_id s1 + num_instances s1\<rparr>"
    have r: "nth_AllocatePage n s0 = Inr (?q, ?t)"
      using a m by (simp add: nth_AllocatePage_def AllocatePage_Inr_iff)
    have "unat ?q < 2 ^ 31"
      using small u by simp
    then have "sint ?q = int (unat ?q)"
      by (rule sint_small)
    then have sq: "sint ?q = int (unat idx + n * unat num)"
      by (simp only: u)
    have "unat idx < unat num"
      using c by (simp add: word_less_nat_alt)
    then have md: "unat ?q mod unat num = unat idx"
      by (simp add: u)
    from r sq md show ?thesis
      by (intro exI [of _ ?q] exI [of _ ?t]) (simp add: s1 c)
  qed
  from modular exact show ?thesis by blast
qed

theorem AllocatePage_nth_call_witness:
  "new_BufferPoolManagerInstance 1 2 1 = Inr odd_pool
   \<and> (\<exists>q t. nth_AllocatePage (Suc (Suc (Suc 0))) odd_pool = Inr (q, t) \<and>
          sint q = 7 \<and> unat q mod 2 = 1 \<and> next_page_id t = q + 2)
   \<and> nth_AllocatePage (Suc (Suc (Suc 0))) odd_pool =
       Inr (7, odd_pool\<lparr>next_page_id := 9\<rparr>)"
proof -
  have ctor: "new_BufferPoolManagerInstance 1 2 1 = Inr odd_pool"
    by (simp add: new_BufferPoolManagerInstance_def odd_pool_def)
  have small: "unat (1 :: 32 word) + Suc (Suc (Suc 0)) * unat (2 :: 32 word) < 2 ^ 31"
    by simp
  from AllocatePage_nth_call [OF ctor, of "Suc (Suc (Suc 0))"] small
  have ex: "\<exists>q t. nth_AllocatePage (Suc (Suc (Suc 0))) odd_pool = Inr (q, t) \<and>
          sint q = 7 \<and> unat q mod 2 = 1 \<and> next_page_id t = q + 2"
    by simp
  have run: "nth_AllocatePage (Suc (Suc (Suc 0))) odd_pool =
       Inr (7, odd_pool\<lparr>next_page_id := 9\<rparr>)"
    by (simp add: nth_AllocatePage_def AllocatePage_def ValidatePageId_def odd_pool_def)
  from ctor ex run show ?thesis by blast
qed

section \<open>NewPgImp\<close>

lemma find_replace_allocator:
  "find_replace s = (s', r) \<Longrightarrow>
     next_page_id s' = next_page_id s \<and> num_instances s' = num_instances s \<and>
     instance_index s' = instance_index s"
  by (auto simp: find_replace_def Let_def split: list.splits option.splits if_splits)

lemma NewPgImp_all_pinned:
  assumes "list_all (\<lambda>p. pin_count p \<noteq> 0) (pages s)"
    and "next_page_id s mod num_instances s = instance_index s"
  shows "NewPgImp s = Inr (s\<lparr>next_page_id := next_page_id s + num_instances s\<rparr>, None)"
proof -
  have "AllocatePage s =
      Inr (next_page_id s, s\<lparr>next_page_id := next_page_id s + num_instances s\<rparr>)"
    using assms(2) by (simp add: AllocatePage_Inr_iff)
  then show ?thesis
    using assms(1) by (simp add: NewPgImp_def)
qed

lemma NewPgImp_None_next_page_id:
  assumes "NewPgImp s = Inr (s', None)"
  shows "next_page_id s' = next_page_id s + num_instances s"
proof -
  from assms obtain p s0 where a: "AllocatePage s = Inr (p, s0)"
    by (auto simp: NewPgImp_def split: sum.splits)
  then have s0: "s0 = s\<lparr>next_page_id := next_page_id s + num_instances s\<rparr>"
    by (simp add: AllocatePage_Inr_iff)
  show ?thesis
  proof (cases "list_all (\<lambda>p. pin_count p \<noteq> 0) (pages s0)")
    case True
    with assms a show ?thesis by (auto simp: NewPgImp_def s0)
  next
    case False
    with assms a obtain r where "find_replace s0 = (s', r)"
      by (auto simp: NewPgImp_def Let_def split: prod.splits option.splits)
    then show ?thesis
      using find_replace_allocator [of s0 s' r] by (simp add: s0)
  qed
qed

text \<open>
  Claim C7: in every state of the pool in which every frame has \<open>pin_count > 0\<close>,
  \<open>NewPgImp\<close> returns no page, and the page table and the free list (and the frames) are
  after the call what they were before it. The call returns when the assertion of
  \<open>ValidatePageId\<close> on the allocated id holds, as it does in a pool whose \<open>next_page_id\<close>
  has the remainder \<open>instance_index\<close> modulo \<open>num_instances\<close>.
\<close>

theorem NewPgImp_all_pinned_returns_none:
  assumes "\<forall>p \<in> set (pages s). 0 < pin_count p"
    and "num_instances s \<noteq> 0"
    and "ValidatePageId s (next_page_id s)"
  shows "\<exists>s'. NewPgImp s = Inr (s', None) \<and> page_table s' = page_table s \<and>
           free_list s' = free_list s \<and> pages s' = pages s \<and>
           replacer s' = replacer s \<and> effects s' = effects s"
proof -
  have "list_all (\<lambda>p. pin_count p \<noteq> 0) (pages s)"
    using assms(1) by (auto simp: list_all_iff)
  moreover have "next_page_id s mod num_instances s = instance_index s"
    using assms(3) by (simp add: ValidatePageId_def)
  ultimately have "NewPgImp s =
      Inr (s\<lparr>next_page_id := next_page_id s + num_instances s\<rparr>, None)"
    by (rule NewPgImp_all_pinned)
  then show ?thesis by simp
qed

theorem NewPgImp_all_pinned_returns_none_witness:
  "(\<exists>s'. NewPgImp pinned_pool = Inr (s', None) \<and>
          page_table s' = [(0, 0)] \<and> free_list s' = [])
   \<and> page_table pinned_pool = [(0, 0)] \<and> free_list pinned_pool = []
   \<and> pin_count (pages pinned_pool ! 0) = 1 \<and> length (pages pinned_pool) = 1"
proof -
  have pinned: "\<forall>p \<in> set (pages pinned_pool). 0 < pin_count p"
    by (simp add: pinned_pool_def)
  have num: "num_instances pinned_pool \<noteq> 0"
    by (simp add: pinned_pool_def)
  have valid: "ValidatePageId pinned_pool (next_page_id pinned_pool)"
    by (simp add: pinned_pool_def ValidatePageId_def)
  from NewPgImp_all_pinned_returns_none [OF pinned num valid]
  obtain s' where "NewPgImp pinned_pool = Inr (s', None)"
    and "page_table s' = page_table pinned_pool" and "free_list s' = free_list pinned_pool"
    by blast
  then have "\<exists>s'. NewPgImp pinned_pool = Inr (s', None) \<and>
          page_table s' = [(0, 0)] \<and> free_list s' = []"
    by (simp add: pinned_pool_def)
  then show ?thesis by (simp add: pinned_pool_def)
qed

text \<open>
  Claim C9: every call of \<open>NewPgImp\<close> that returns no page leaves \<open>next_page_id\<close> advanced
  by \<open>num_instances\<close> (the addition of the code, on 32 bits), so with \<open>num_instances\<close> not
  zero the allocator's state has changed; and when every frame is pinned and the
  allocator's assertion holds, the call does return no page, in the state that differs
  from the one before by this advance only.
\<close>

theorem NewPgImp_none_consumes_page_id:
  "(NewPgImp s = Inr (s', None) \<longrightarrow>
      next_page_id s' = next_page_id s + num_instances s \<and>
      (num_instances s \<noteq> 0 \<longrightarrow> next_page_id s' \<noteq> next_page_id s))
   \<and> ((\<forall>p \<in> set (pages s). pin_count p \<noteq> 0) \<longrightarrow>
        ValidatePageId s (next_page_id s) \<longrightarrow>
        NewPgImp s = Inr (s\<lparr>next_page_id := next_page_id s + num_instances s\<rparr>, None))"
proof -
  have a: "next_page_id s' = next_page_id s + num_instances s"
    if "NewPgImp s = Inr (s', None)"
    using that by (rule NewPgImp_None_next_page_id)
  have b: "NewPgImp s = Inr (s\<lparr>next_page_id := next_page_id s + num_instances s\<rparr>, None)"
    if "\<forall>p \<in> set (pages s). pin_count p \<noteq> 0" and "ValidatePageId s (next_page_id s)"
    using that by (intro NewPgImp_all_pinned) (auto simp: list_all_iff ValidatePageId_def)
  from a b show ?thesis by auto
qed

theorem NewPgImp_none_consumes_page_id_witness:
  "NewPgImp pinned_pool = Inr (pinned_pool\<lparr>next_page_id := 2\<rparr>, None)
   \<and> next_page_id pinned_pool = 1
   \<and> num_instances pinned_pool = 1
   \<and> pin_count (pages pinned_pool ! 0) = 1 \<and> length (pages pinned_pool) = 1"
proof -
  have pinned: "\<forall>p \<in> set (pages pinned_pool). pin_count p \<noteq> 0"
    by (simp add: pinned_pool_def)
  have valid: "ValidatePageId pinned_pool (next_page_id pinned_pool)"
    by (simp add: pinned_pool_def ValidatePageId_def)
  from NewPgImp_none_consumes_page_id [of pinned_pool] pinned valid
  have "NewPgImp pinned_pool =
      Inr (pinned_pool\<lparr>next_page_id :=
             next_page_id pinned_pool + num_instances pinned_pool\<rparr>, None)"
    by blast
  then show ?thesis by (simp add: pinned_pool_def)
qed

section \<open>UnpinPgImp on a page that is not pinned\<close>

lemma fresh_pool_NewPgImp: "NewPgImp fresh_pool = Inr (pinned_pool, Some (0, 0))"
  by (simp add: NewPgImp_def AllocatePage_def ValidatePageId_def find_replace_def
      fresh_pool_def pinned_pool_def new_Page_def Pin_def)

lemma pinned_pool_UnpinPgImp: "UnpinPgImp 0 False pinned_pool = (unpinned_pool, True)"
  by (simp add: UnpinPgImp_def pinned_pool_def unpinned_pool_def Unpin_def)

text \<open>
  Claim C3, as stated, on the pool reached by the constructor, \<open>NewPgImp\<close> and
  \<open>UnpinPgImp(0, false)\<close>: page 0 is resident with pin count zero and clean; the second
  unpin, \<open>UnpinPgImp(0, true)\<close>, returns false, and has set the dirty bit of the frame.
\<close>

theorem UnpinPgImp_zero_counterexample:
  "new_BufferPoolManagerInstance 1 1 0 = Inr fresh_pool
   \<and> NewPgImp fresh_pool = Inr (pinned_pool, Some (0, 0))
   \<and> UnpinPgImp 0 False pinned_pool = (unpinned_pool, True)
   \<and> map_of (page_table unpinned_pool) 0 = Some 0
   \<and> pin_count (pages unpinned_pool ! 0) = 0
   \<and> \<not> is_dirty (pages unpinned_pool ! 0)
   \<and> snd (UnpinPgImp 0 True unpinned_pool) = False
   \<and> is_dirty (pages (fst (UnpinPgImp 0 True unpinned_pool)) ! 0)
   \<and> pages (fst (UnpinPgImp 0 True unpinned_pool)) ! 0 \<noteq> pages unpinned_pool ! 0"
proof -
  have "UnpinPgImp 0 True unpinned_pool =
      (unpinned_pool\<lparr>pages :=
         [\<lparr>page_id = 0, data = replicate PAGE_SIZE 0, pin_count = 0,
           is_dirty = True\<rparr>]\<rparr>, False)"
    by (simp add: UnpinPgImp_def unpinned_pool_def)
  then show ?thesis
    using fresh_pool_constructed fresh_pool_NewPgImp pinned_pool_UnpinPgImp
    by (simp add: unpinned_pool_def)
qed

text \<open>
  Claim C3, amended: for every call \<open>UnpinPage(page_id, is_dirty)\<close> where \<open>page_id\<close> is
  resident in a frame of the pool whose pin count is already zero, the call returns
  false; the frame's page id, data and pin count, and everything else in the pool, are
  unchanged, and the frame's dirty bit is set when \<open>is_dirty\<close> is true and unchanged
  otherwise (the dirty bit is written before the pin count is tested). With
  \<open>is_dirty\<close> false the whole state is unchanged.
\<close>

theorem UnpinPgImp_pin_count_zero:
  assumes "map_of (page_table s) pid = Some fid"
    and "fid < length (pages s)"
    and "pin_count (pages s ! fid) = 0"
  shows "UnpinPgImp pid d s =
           (s\<lparr>pages := (pages s)
                [fid := (pages s ! fid)\<lparr>is_dirty := is_dirty (pages s ! fid) \<or> d\<rparr>]\<rparr>,
            False)
         \<and> (\<not> d \<longrightarrow> UnpinPgImp pid d s = (s, False))"
proof (cases d)
  case True
  with assms show ?thesis by (simp add: UnpinPgImp_def)
next
  case False
  have "(pages s ! fid)\<lparr>is_dirty := is_dirty (pages s ! fid)\<rparr> = pages s ! fid"
    by simp
  with False assms show ?thesis by (simp add: UnpinPgImp_def)
qed

theorem UnpinPgImp_pin_count_zero_witness:
  "UnpinPgImp 0 True unpinned_pool =
     (unpinned_pool\<lparr>pages :=
        [\<lparr>page_id = 0, data = replicate PAGE_SIZE 0, pin_count = 0,
          is_dirty = True\<rparr>]\<rparr>, False)
   \<and> UnpinPgImp 0 False unpinned_pool = (unpinned_pool, False)
   \<and> map_of (page_table unpinned_pool) 0 = Some 0
   \<and> pin_count (pages unpinned_pool ! 0) = 0"
proof -
  have r: "map_of (page_table unpinned_pool) 0 = Some 0"
    and l: "0 < length (pages unpinned_pool)"
    and z: "pin_count (pages unpinned_pool ! 0) = 0"
    by (simp_all add: unpinned_pool_def)
  from UnpinPgImp_pin_count_zero [OF r l z, of True]
    UnpinPgImp_pin_count_zero [OF r l z, of False] r z
  show ?thesis by (simp add: unpinned_pool_def)
qed

section \<open>The frame that NewPgImp returns\<close>

lemma idle_frames_unpinnedD:
  assumes "idle_frames_unpinned s" and "f \<in> set (free_list s) \<union> set (lru (replacer s))"
  shows "f < length (pages s) \<and> pin_count (pages s ! f) = 0"
  using assms by (auto simp: idle_frames_unpinned_def list_all_iff)

lemma Victim_Some:
  "Victim r = Some (f, r') \<longleftrightarrow>
     (lru r \<noteq> [] \<and> f = last (lru r) \<and> r' = r\<lparr>lru := butlast (lru r)\<rparr>)"
  by (auto simp: Victim_def split: list.splits)

lemma Victim_None: "Victim r = None \<longleftrightarrow> lru r = []"
  by (simp add: Victim_def split: list.splits)

lemma find_replace_Some_frame:
  assumes fr: "find_replace s = (s1, Some fid)"
    and idle: "idle_frames_unpinned s"
  shows "fid < length (pages s) \<and> length (pages s1) = length (pages s) \<and>
         pin_count (pages s1 ! fid) = 0 \<and> data (pages s1 ! fid) = data (pages s ! fid)"
proof (cases "free_list s")
  case (Cons f rest)
  with fr have "fid = f" and "pages s1 = pages s"
    by (auto simp: find_replace_def)
  moreover have "f \<in> set (free_list s) \<union> set (lru (replacer s))"
    using Cons by simp
  ultimately show ?thesis
    using idle_frames_unpinnedD [OF idle] by auto
next
  case Nil
  with fr obtain r' where v: "Victim (replacer s) = Some (fid, r')"
    by (auto simp: find_replace_def Let_def split: option.splits if_splits)
  then have "fid \<in> set (free_list s) \<union> set (lru (replacer s))"
    by (simp add: Victim_Some)
  then have f: "fid < length (pages s)" "pin_count (pages s ! fid) = 0"
    using idle_frames_unpinnedD [OF idle] by auto
  from fr Nil v f show ?thesis
    by (auto simp: find_replace_def Let_def split: if_splits)
qed

lemma fresh_pool_FetchPgImp:
  "FetchPgImp stale_disk 5 fresh_pool = (fetched_pool, Some 0)"
  by (simp add: FetchPgImp_def find_replace_def fresh_pool_def fetched_pool_def
      new_Page_def stale_disk_def Pin_def)

lemma fetched_pool_UnpinPgImp: "UnpinPgImp 5 False fetched_pool = (stale_pool, True)"
  by (simp add: UnpinPgImp_def fetched_pool_def stale_pool_def Unpin_def)

lemma stale_pool_NewPgImp: "NewPgImp stale_pool = Inr (renewed_pool, Some (0, 0))"
  by (simp add: NewPgImp_def AllocatePage_def ValidatePageId_def find_replace_def
      find_page_of_frame_def Victim_def Pin_def stale_pool_def renewed_pool_def)

text \<open>
  Claim C2, as stated, on the pool of one frame reached from the constructor by
  \<open>FetchPgImp(5)\<close> from a disk whose pages are not zero and \<open>UnpinPgImp(5, false)\<close>:
  \<open>NewPgImp\<close> evicts page 5, returns frame 0 for the new page 0, and the frame's buffer
  still holds the bytes of page 5.
\<close>

theorem NewPgImp_data_counterexample:
  "new_BufferPoolManagerInstance 1 1 0 = Inr fresh_pool
   \<and> FetchPgImp stale_disk 5 fresh_pool = (fetched_pool, Some 0)
   \<and> UnpinPgImp 5 False fetched_pool = (stale_pool, True)
   \<and> NewPgImp stale_pool = Inr (renewed_pool, Some (0, 0))
   \<and> page_id (pages renewed_pool ! 0) = 0
   \<and> data (pages renewed_pool ! 0) = stale_disk 5
   \<and> \<not> all_zero (data (pages renewed_pool ! 0))"
  using fresh_pool_constructed fresh_pool_FetchPgImp fetched_pool_UnpinPgImp
    stale_pool_NewPgImp
  by (simp add: renewed_pool_def all_zero_def stale_disk_def)

text \<open>
  Claim C2, amended: for every call of \<open>NewPgImp\<close> that returns a page, in a pool whose
  frames in the free list and in the replacer are unpinned, the returned frame has its
  page id equal to the freshly allocated id (the \<open>next_page_id\<close> of before the call), its
  pin count equal to 1 and its dirty flag false, and the page table maps the new page id
  to that frame; the data buffer is not zeroed: it holds what the frame held before the
  call.
\<close>

theorem NewPgImp_returned_frame:
  assumes ret: "NewPgImp s = Inr (s', Some (pid, fid))"
    and idle: "idle_frames_unpinned s"
  shows "pid = next_page_id s \<and> fid < length (pages s') \<and>
         page_id (pages s' ! fid) = pid \<and>
         data (pages s' ! fid) = data (pages s ! fid) \<and>
         pin_count (pages s' ! fid) = 1 \<and>
         \<not> is_dirty (pages s' ! fid) \<and>
         map_of (page_table s') pid = Some fid"
proof -
  from ret obtain p s0 where a: "AllocatePage s = Inr (p, s0)"
    by (auto simp: NewPgImp_def split: sum.splits)
  then have p: "p = next_page_id s"
    and s0: "s0 = s\<lparr>next_page_id := next_page_id s + num_instances s\<rparr>"
    by (simp_all add: AllocatePage_Inr_iff)
  have np: "\<not> list_all (\<lambda>p. pin_count p \<noteq> 0) (pages s0)"
    using ret a by (auto simp: NewPgImp_def)
  obtain s1 r where fr0: "find_replace s0 = (s1, r)"
    by (cases "find_replace s0")
  have "r \<noteq> None"
    using ret a np fr0 by (cases r) (simp_all add: NewPgImp_def)
  then obtain f where r: "r = Some f" by auto
  have unfolded: "NewPgImp s =
      Inr (s1\<lparr>pages := (pages s1)
                  [f := (pages s1 ! f)
                     \<lparr>page_id := p, pin_count := pin_count (pages s1 ! f) + 1,
                      is_dirty := False\<rparr>],
               replacer := Pin f (replacer s1),
               page_table := AList.update p f (page_table s1)\<rparr>, Some (p, f))"
    using a np fr0 r by (simp add: NewPgImp_def Let_def)
  with ret have pid: "pid = p" and fid: "f = fid"
    and s': "s' = s1\<lparr>pages := (pages s1)
                      [f := (pages s1 ! f)
                         \<lparr>page_id := p, pin_count := pin_count (pages s1 ! f) + 1,
                          is_dirty := False\<rparr>],
                    replacer := Pin f (replacer s1),
                    page_table := AList.update p f (page_table s1)\<rparr>"
    by auto
  have fr: "find_replace s0 = (s1, Some fid)"
    using fr0 r fid by simp
  have "idle_frames_unpinned s0"
    using idle by (simp add: s0 idle_frames_unpinned_def)
  from find_replace_Some_frame [OF fr this]
  have f: "fid < length (pages s1)" "pin_count (pages s1 ! fid) = 0"
    "data (pages s1 ! fid) = data (pages s ! fid)"
    by (simp_all add: s0)
  from f show ?thesis
    by (simp add: s' fid pid p update_conv')
qed

theorem NewPgImp_returned_frame_witness:
  "NewPgImp stale_pool = Inr (renewed_pool, Some (0, 0))
   \<and> next_page_id stale_pool = 0
   \<and> page_id (pages renewed_pool ! 0) = 0
   \<and> data (pages renewed_pool ! 0) = data (pages stale_pool ! 0)
   \<and> pin_count (pages renewed_pool ! 0) = 1
   \<and> \<not> is_dirty (pages renewed_pool ! 0)
   \<and> map_of (page_table renewed_pool) 0 = Some 0"
proof -
  have idle: "idle_frames_unpinned stale_pool"
    by (simp add: idle_frames_unpinned_def stale_pool_def)
  from NewPgImp_returned_frame [OF stale_pool_NewPgImp idle] stale_pool_NewPgImp
  show ?thesis by simp
qed

section \<open>Frame acquisition\<close>

lemma page_table_consistentD:
  assumes "page_table_consistent s" and "(pid, fid) \<in> set (page_table s)"
  shows "pid \<noteq> INVALID_PAGE_ID \<and> fid < length (pages s) \<and> page_id (pages s ! fid) = pid"
  using assms by (auto simp: page_table_consistent_def list_all_iff)

lemma find_page_of_frame_resident:
  assumes c: "page_table_consistent s" and r: "fid \<in> snd ` set (page_table s)"
  shows "find_page_of_frame (page_table s) fid = page_id (pages s ! fid) \<and>
         page_id (pages s ! fid) \<noteq> - 1"
proof -
  from r have "\<exists>e \<in> set (page_table s). snd e = fid" by auto
  then obtain e where f: "find (\<lambda>p. snd p = fid) (page_table s) = Some e"
    by (cases "find (\<lambda>p. snd p = fid) (page_table s)") (auto simp: find_None_iff)
  then have "e \<in> set (page_table s)" and "snd e = fid"
    by (auto simp: find_Some_iff)
  then have "(fst e, fid) \<in> set (page_table s)" by (metis prod.collapse)
  from page_table_consistentD [OF c this] f show ?thesis
    by (simp add: find_page_of_frame_def INVALID_PAGE_ID_def)
qed

lemma find_page_of_frame_absent:
  assumes "fid \<notin> snd ` set table"
  shows "find_page_of_frame table fid = - 1"
proof -
  have "find (\<lambda>p. snd p = fid) table = None"
    using assms by (force simp: find_None_iff)
  then show ?thesis by (simp add: find_page_of_frame_def)
qed

lemma find_replace_free:
  "free_list s = f # rest \<Longrightarrow> find_replace s = (s\<lparr>free_list := rest\<rparr>, Some f)"
  by (simp add: find_replace_def)

lemma find_replace_victim_resident:
  assumes "free_list s = []" and "Victim (replacer s) = Some (fid, r')"
    and "page_table_consistent s" and "fid \<in> snd ` set (page_table s)"
  shows "find_replace s =
     ((if is_dirty (pages s ! fid) then
         s\<lparr>replacer := r',
           effects := effects s @ [WritePage (page_id (pages s ! fid)) (data (pages s ! fid))],
           pages := (pages s)[fid := (pages s ! fid)\<lparr>pin_count := 0\<rparr>]\<rparr>
       else s\<lparr>replacer := r'\<rparr>)
      \<lparr>page_table := AList.delete (page_id (pages s ! fid)) (page_table s),
       effects := effects s @
         (if is_dirty (pages s ! fid) then
            [WritePage (page_id (pages s ! fid)) (data (pages s ! fid))] else []) @
         [PageTableErase (page_id (pages s ! fid))]\<rparr>, Some fid)"
proof -
  from find_page_of_frame_resident [OF assms(3,4)]
  have "find_page_of_frame (page_table s) fid \<noteq> - 1" by simp
  with assms(1,2) show ?thesis
    by (simp add: find_replace_def Let_def)
qed

lemma find_replace_victim_absent:
  assumes "free_list s = []" and "Victim (replacer s) = Some (fid, r')"
    and "fid \<notin> snd ` set (page_table s)"
  shows "find_replace s = (s\<lparr>replacer := r'\<rparr>, Some fid)"
  using assms find_page_of_frame_absent [OF assms(3)]
  by (simp add: find_replace_def Let_def)

lemma find_replace_None:
  "snd (find_replace s) = None \<longleftrightarrow> free_list s = [] \<and> lru (replacer s) = []"
  by (auto simp: find_replace_def Let_def Victim_def split: list.splits)

text \<open>
  Claim C4: when the free list is not empty \<open>find_replace\<close> returns true with its head
  and removes it; otherwise, when the replacer yields a victim, it returns true with that
  frame, and in a pool with a consistent page table, when the frame holds a resident page
  that is dirty, the page's data is written to disk and after that its page-table entry
  is erased (when the page is clean the entry is erased without a write, and when the
  frame holds no resident page only the replacer has changed); it returns false exactly
  when the free list and the replacer are both empty.
\<close>

theorem find_replace_spec:
  "(free_list s = f # rest \<longrightarrow> find_replace s = (s\<lparr>free_list := rest\<rparr>, Some f))
   \<and> (free_list s = [] \<longrightarrow> Victim (replacer s) = Some (fid, r') \<longrightarrow>
        page_table_consistent s \<longrightarrow>
        (\<exists>s'. find_replace s = (s', Some fid) \<and> replacer s' = r' \<and>
           (fid \<in> snd ` set (page_table s) \<longrightarrow>
              effects s' = effects s @
                (if is_dirty (pages s ! fid) then
                   [WritePage (page_id (pages s ! fid)) (data (pages s ! fid))] else []) @
                [PageTableErase (page_id (pages s ! fid))] \<and>
              map_of (page_table s) (page_id (pages s ! fid)) = Some fid \<and>
              page_table s' = AList.delete (page_id (pages s ! fid)) (page_table s) \<and>
              map_of (page_table s') (page_id (pages s ! fid)) = None) \<and>
           (fid \<notin> snd ` set (page_table s) \<longrightarrow> s' = s\<lparr>replacer := r'\<rparr>)))
   \<and> (snd (find_replace s) = None \<longleftrightarrow> free_list s = [] \<and> lru (replacer s) = [])"
proof (intro conjI impI)
  show "find_replace s = (s\<lparr>free_list := rest\<rparr>, Some f)" if "free_list s = f # rest"
    using that by (rule find_replace_free)
  show "snd (find_replace s) = None \<longleftrightarrow> free_list s = [] \<and> lru (replacer s) = []"
    by (rule find_replace_None)
  show "\<exists>s'. find_replace s = (s', Some fid) \<and> replacer s' = r' \<and>
           (fid \<in> snd ` set (page_table s) \<longrightarrow>
              effects s' = effects s @
                (if is_dirty (pages s ! fid) then
                   [WritePage (page_id (pages s ! fid)) (data (pages s ! fid))] else []) @
                [PageTableErase (page_id (pages s ! fid))] \<and>
              map_of (page_table s) (page_id (pages s ! fid)) = Some fid \<and>
              page_table s' = AList.delete (page_id (pages s ! fid)) (page_table s) \<and>
              map_of (page_table s') (page_id (pages s ! fid)) = None) \<and>
           (fid \<notin> snd ` set (page_table s) \<longrightarrow> s' = s\<lparr>replacer := r'\<rparr>)"
    if e: "free_list s = []" and v: "Victim (replacer s) = Some (fid, r')"
      and c: "page_table_consistent s"
  proof (cases "fid \<in> snd ` set (page_table s)")
    case True
    then obtain pid where in_table: "(pid, fid) \<in> set (page_table s)"
      by auto
    from page_table_consistentD [OF c this]
    have "page_id (pages s ! fid) = pid" by simp
    moreover have "distinct (map fst (page_table s))"
      using c by (simp add: page_table_consistent_def)
    ultimately have m: "map_of (page_table s) (page_id (pages s ! fid)) = Some fid"
      using in_table by (simp add: map_of_is_SomeI)
    from find_replace_victim_resident [OF e v c True] True m show ?thesis
      by (auto simp: delete_conv')
  next
    case False
    from find_replace_victim_absent [OF e v False] False show ?thesis
      by simp
  qed
qed

theorem find_replace_spec_witness:
  "find_replace fresh_pool = (fresh_pool\<lparr>free_list := []\<rparr>, Some 0)
   \<and> (\<exists>s'. find_replace dirty_pool = (s', Some 0) \<and>
          effects s' = [WritePage 0 (replicate PAGE_SIZE 0), PageTableErase 0] \<and>
          page_table s' = [])
   \<and> map_of (page_table dirty_pool) 0 = Some 0
   \<and> is_dirty (pages dirty_pool ! 0)
   \<and> snd (find_replace pinned_pool) = None
   \<and> free_list pinned_pool = [] \<and> lru (replacer pinned_pool) = []"
proof -
  have a: "find_replace fresh_pool = (fresh_pool\<lparr>free_list := []\<rparr>, Some 0)"
    using find_replace_spec [of fresh_pool 0 "[]"] by (simp add: fresh_pool_def)
  have e: "free_list dirty_pool = []"
    and v: "Victim (replacer dirty_pool) = Some (0, \<lparr>lru = [], capacity = 1\<rparr>)"
    and c: "page_table_consistent dirty_pool"
    and r: "0 \<in> snd ` set (page_table dirty_pool)"
    by (simp_all add: dirty_pool_def Victim_def page_table_consistent_def
        INVALID_PAGE_ID_def)
  from find_replace_spec [of dirty_pool _ _ 0 "\<lparr>lru = [], capacity = 1\<rparr>"] e v c r
  obtain s' where "find_replace dirty_pool = (s', Some 0)"
    and "effects s' = effects dirty_pool @
          (if is_dirty (pages dirty_pool ! 0) then
             [WritePage (page_id (pages dirty_pool ! 0)) (data (pages dirty_pool ! 0))]
           else []) @
          [PageTableErase (page_id (pages dirty_pool ! 0))]"
    and "page_table s' =
          AList.delete (page_id (pages dirty_pool ! 0)) (page_table dirty_pool)"
    by blast
  then have b: "\<exists>s'. find_replace dirty_pool = (s', Some 0) \<and>
          effects s' = [WritePage 0 (replicate PAGE_SIZE 0), PageTableErase 0] \<and>
          page_table s' = []"
    by (simp add: dirty_pool_def)
  have n: "snd (find_replace pinned_pool) = None"
    using find_replace_spec [of pinned_pool] by (simp add: pinned_pool_def)
  from a b n show ?thesis
    by (simp add: dirty_pool_def pinned_pool_def)
qed

section \<open>DeletePgImp\<close>

lemma FlushPgImp_resident:
  assumes "map_of (page_table s) pid = Some fid" and "pid \<noteq> INVALID_PAGE_ID"
  shows "FlushPgImp pid s =
           (s\<lparr>effects := effects s @ [WritePage pid (data (pages s ! fid))]\<rparr>, True)"
  using assms by (simp add: FlushPgImp_def)

text \<open>
  Claim C5, for a pool with a consistent page table: \<open>DeletePgImp\<close> on a page that is not
  resident returns true and changes nothing; on a resident page with \<open>pin_count > 0\<close> it
  returns false and changes nothing; otherwise it writes the page to disk if it is
  dirty, then deallocates the page id, then erases the page-table entry, resets the
  frame to the invalid page id, pin count zero and clean, appends the frame to the free
  list, and returns true.
\<close>

theorem DeletePgImp_spec:
  assumes c: "page_table_consistent s"
  shows "(map_of (page_table s) pid = None \<longrightarrow> DeletePgImp pid s = (s, True))
   \<and> (map_of (page_table s) pid = Some fid \<longrightarrow> 0 < pin_count (pages s ! fid) \<longrightarrow>
        DeletePgImp pid s = (s, False))
   \<and> (map_of (page_table s) pid = Some fid \<longrightarrow> \<not> 0 < pin_count (pages s ! fid) \<longrightarrow>
        (\<exists>s'. DeletePgImp pid s = (s', True) \<and>
           effects s' = effects s @
             (if is_dirty (pages s ! fid) then [WritePage pid (data (pages s ! fid))]
              else []) @
             [DeallocatePage pid, PageTableErase pid] \<and>
           page_table s' = AList.delete pid (page_table s) \<and>
           map_of (page_table s') pid = None \<and>
           length (pages s') = length (pages s) \<and>
           page_id (pages s' ! fid) = INVALID_PAGE_ID \<and>
           pin_count (pages s' ! fid) = 0 \<and>
           \<not> is_dirty (pages s' ! fid) \<and>
           free_list s' = free_list s @ [fid]))"
proof (intro conjI impI)
  show "DeletePgImp pid s = (s, True)" if "map_of (page_table s) pid = None"
    using that by (simp add: DeletePgImp_def)
  show "DeletePgImp pid s = (s, False)"
    if "map_of (page_table s) pid = Some fid" and "0 < pin_count (pages s ! fid)"
    using that by (simp add: DeletePgImp_def)
  show "\<exists>s'. DeletePgImp pid s = (s', True) \<and>
           effects s' = effects s @
             (if is_dirty (pages s ! fid) then [WritePage pid (data (pages s ! fid))]
              else []) @
             [DeallocatePage pid, PageTableErase pid] \<and>
           page_table s' = AList.delete pid (page_table s) \<and>
           map_of (page_table s') pid = None \<and>
           length (pages s') = length (pages s) \<and>
           page_id (pages s' ! fid) = INVALID_PAGE_ID \<and>
           pin_count (pages s' ! fid) = 0 \<and>
           \<not> is_dirty (pages s' ! fid) \<and>
           free_list s' = free_list s @ [fid]"
    if m: "map_of (page_table s) pid = Some fid" and u: "\<not> 0 < pin_count (pages s ! fid)"
  proof -
    from m have "(pid, fid) \<in> set (page_table s)"
      by (rule map_of_SomeD)
    from page_table_consistentD [OF c this]
    have v: "pid \<noteq> INVALID_PAGE_ID" and l: "fid < length (pages s)"
      by simp_all
    note fl = FlushPgImp_resident [OF m v]
    show ?thesis
    proof (cases "is_dirty (pages s ! fid)")
      case True
      with m u l show ?thesis
        by (simp add: DeletePgImp_def Let_def fl delete_conv')
    next
      case False
      with m u l show ?thesis
        by (simp add: DeletePgImp_def Let_def delete_conv')
    qed
  qed
qed

theorem DeletePgImp_spec_witness:
  "DeletePgImp 7 dirty_pool = (dirty_pool, True)
   \<and> DeletePgImp 0 pinned_pool = (pinned_pool, False)
   \<and> (\<exists>s'. DeletePgImp 0 dirty_pool = (s', True) \<and>
          effects s' =
            [WritePage 0 (replicate PAGE_SIZE 0), DeallocatePage 0, PageTableErase 0] \<and>
          page_table s' = [] \<and>
          page_id (pages s' ! 0) = INVALID_PAGE_ID \<and>
          pin_count (pages s' ! 0) = 0 \<and>
          \<not> is_dirty (pages s' ! 0) \<and>
          free_list s' = [0])
   \<and> map_of (page_table dirty_pool) 0 = Some 0
   \<and> map_of (page_table dirty_pool) 7 = None
   \<and> is_dirty (pages dirty_pool ! 0)
   \<and> pin_count (pages pinned_pool ! 0) = 1"
proof -
  have cd: "page_table_consistent dirty_pool"
    and cp: "page_table_consistent pinned_pool"
    by (simp_all add: dirty_pool_def pinned_pool_def page_table_consistent_def
        INVALID_PAGE_ID_def)
  have a: "DeletePgImp 7 dirty_pool = (dirty_pool, True)"
    using DeletePgImp_spec [OF cd, of 7] by (simp add: dirty_pool_def)
  have b: "DeletePgImp 0 pinned_pool = (pinned_pool, False)"
    using DeletePgImp_spec [OF cp, of 0 0] by (simp add: pinned_pool_def)
  have m: "map_of (page_table dirty_pool) 0 = Some 0"
    and u: "\<not> 0 < pin_count (pages dirty_pool ! 0)"
    by (simp_all add: dirty_pool_def)
  from DeletePgImp_spec [OF cd, of 0 0] m u
  obtain s' where "DeletePgImp 0 dirty_pool = (s', True)"
    and "effects s' = effects dirty_pool @
             (if is_dirty (pages dirty_pool ! 0) then
                [WritePage 0 (data (pages dirty_pool ! 0))] else []) @
             [DeallocatePage 0, PageTableErase 0]"
    and "page_table s' = AList.delete 0 (page_table dirty_pool)"
    and "page_id (pages s' ! 0) = INVALID_PAGE_ID"
    and "pin_count (pages s' ! 0) = 0"
    and "\<not> is_dirty (pages s' ! 0)"
    and "free_list s' = free_list dirty_pool @ [0]"
    by blast
  then have d: "\<exists>s'. DeletePgImp 0 dirty_pool = (s', True) \<and>
          effects s' =
            [WritePage 0 (replicate PAGE_SIZE 0), DeallocatePage 0, PageTableErase 0] \<and>
          page_table s' = [] \<and>
          page_id (pages s' ! 0) = INVALID_PAGE_ID \<and>
          pin_count (pages s' ! 0) = 0 \<and>
          \<not> is_dirty (pages s' ! 0) \<and>
          free_list s' = [0]"
    by (simp add: dirty_pool_def)
  from a b d show ?thesis
    by (simp add: dirty_pool_def pinned_pool_def)
qed

section \<open>The invariant of the pool\<close>

lemma page_table_consistent_iff:
  "page_table_consistent s \<longleftrightarrow>
     distinct (map fst (page_table s)) \<and>
     (\<forall>p g. map_of (page_table s) p = Some g \<longrightarrow>
        p \<noteq> INVALID_PAGE_ID \<and> g < length (pages s) \<and> page_id (pages s ! g) = p)"
proof (cases "distinct (map fst (page_table s))")
  case True
  then have "\<And>p g. (p, g) \<in> set (page_table s) \<longleftrightarrow> map_of (page_table s) p = Some g"
    by (simp add: map_of_eq_Some_iff)
  with True show ?thesis
    by (auto simp: page_table_consistent_def list_all_iff)
next
  case False
  then show ?thesis by (simp add: page_table_consistent_def)
qed

lemma frame_resident_iff:
  assumes "distinct (map fst table)"
  shows "g \<in> snd ` set table \<longleftrightarrow> (\<exists>p. map_of table p = Some g)"
  using assms by (force simp: map_of_eq_Some_iff)

lemma pool_invariant_iff:
  "pool_invariant s \<longleftrightarrow>
     page_table_consistent s \<and>
     (\<forall>f \<in> set (free_list s) \<union> set (lru (replacer s)).
        f < length (pages s) \<and> pin_count (pages s ! f) = 0) \<and>
     distinct (free_list s) \<and>
     (\<forall>f \<in> set (free_list s). \<forall>p. map_of (page_table s) p \<noteq> Some f)"
proof (cases "page_table_consistent s")
  case True
  then have "distinct (map fst (page_table s))"
    by (simp add: page_table_consistent_def)
  from frame_resident_iff [OF this] True show ?thesis
    by (auto simp: pool_invariant_def idle_frames_unpinned_def list_all_iff)
next
  case False
  then show ?thesis by (simp add: pool_invariant_def)
qed

lemma constructed_invariant:
  assumes "new_BufferPoolManagerInstance k num idx = Inr s"
  shows "pool_invariant s"
proof -
  from assms have s: "pages s = replicate k new_Page" "page_table s = []"
    "free_list s = [0 ..< k]" "lru (replacer s) = []"
    by (auto simp: new_BufferPoolManagerInstance_def split: if_splits)
  show ?thesis
    by (simp add: pool_invariant_def page_table_consistent_def idle_frames_unpinned_def
        s list_all_iff new_Page_def)
qed

lemma pool_invariant_fields:
  assumes "pages s' = pages s" and "page_table s' = page_table s"
    and "free_list s' = free_list s" and "lru (replacer s') = lru (replacer s)"
  shows "pool_invariant s' = pool_invariant s"
  using assms
  by (simp add: pool_invariant_def page_table_consistent_def idle_frames_unpinned_def)

lemma map_of_update_Some:
  "map_of (AList.update k v al) p = Some g \<longleftrightarrow>
     (p = k \<and> g = v) \<or> (p \<noteq> k \<and> map_of al p = Some g)"
  by (auto simp: update_conv')

lemma map_of_delete_Some:
  "map_of (AList.delete k al) p = Some g \<longleftrightarrow> p \<noteq> k \<and> map_of al p = Some g"
  by (auto simp: delete_conv')

text \<open>Erasing an entry of the page table keeps the invariant.\<close>

lemma erase_invariant:
  assumes "pool_invariant s" and "pages s' = pages s"
    and "page_table s' = AList.delete k (page_table s)"
    and "free_list s' = free_list s" and "lru (replacer s') = lru (replacer s)"
  shows "pool_invariant s'"
proof -
  from assms(1) have c: "page_table_consistent s"
    and idle: "\<forall>g \<in> set (free_list s) \<union> set (lru (replacer s)).
        g < length (pages s) \<and> pin_count (pages s ! g) = 0"
    and d: "distinct (free_list s)"
    and fr: "\<forall>g \<in> set (free_list s). \<forall>p. map_of (page_table s) p \<noteq> Some g"
    by (simp_all add: pool_invariant_iff)
  have sub: "\<And>p g. map_of (page_table s') p = Some g \<Longrightarrow> map_of (page_table s) p = Some g"
    by (simp add: assms(3) map_of_delete_Some)
  have "distinct (map fst (page_table s'))"
    using c by (simp add: assms(3) page_table_consistent_iff distinct_delete)
  moreover have "\<forall>p g. map_of (page_table s') p = Some g \<longrightarrow>
        p \<noteq> INVALID_PAGE_ID \<and> g < length (pages s') \<and> page_id (pages s' ! g) = p"
    using c sub unfolding page_table_consistent_iff assms(2) by blast
  ultimately have "page_table_consistent s'"
    unfolding page_table_consistent_iff by blast
  moreover have "\<forall>g \<in> set (free_list s'). \<forall>p. map_of (page_table s') p \<noteq> Some g"
    using fr sub unfolding assms(4) by blast
  ultimately show ?thesis
    using idle d unfolding pool_invariant_iff assms(2,4,5) by blast
qed

text \<open>
  Installing a page with a valid id in a frame of the pool that is neither in the free
  list nor the frame of a resident page keeps the invariant; the frame leaves the
  replacer.
\<close>

lemma install_invariant:
  assumes inv: "pool_invariant s"
    and f: "f < length (pages s)" "f \<notin> set (free_list s)"
      "\<forall>p. map_of (page_table s) p \<noteq> Some f"
    and pid: "pid \<noteq> INVALID_PAGE_ID" "page_id pg = pid"
    and s': "pages s' = (pages s)[f := pg]"
      "page_table s' = AList.update pid f (page_table s)"
      "free_list s' = free_list s"
      "lru (replacer s') = removeAll f (lru (replacer s))"
  shows "pool_invariant s'"
proof -
  from inv have c: "page_table_consistent s"
    and idle: "\<forall>g \<in> set (free_list s) \<union> set (lru (replacer s)).
        g < length (pages s) \<and> pin_count (pages s ! g) = 0"
    and d: "distinct (free_list s)"
    and fr: "\<forall>g \<in> set (free_list s). \<forall>p. map_of (page_table s) p \<noteq> Some g"
    by (simp_all add: pool_invariant_iff)
  have dk: "distinct (map fst (page_table s'))"
    using c by (simp add: s' page_table_consistent_iff distinct_update)
  have "p \<noteq> INVALID_PAGE_ID \<and> g < length (pages s') \<and> page_id (pages s' ! g) = p"
    if "map_of (page_table s') p = Some g" for p g
  proof -
    from that consider "p = pid" "g = f" | "p \<noteq> pid" "map_of (page_table s) p = Some g"
      unfolding s' map_of_update_Some by blast
    then show ?thesis
    proof cases
      case 1
      with f pid show ?thesis by (simp add: s')
    next
      case 2
      with f have "g \<noteq> f" by auto
      moreover from 2 c have "p \<noteq> INVALID_PAGE_ID \<and> g < length (pages s) \<and>
          page_id (pages s ! g) = p"
        unfolding page_table_consistent_iff by blast
      ultimately show ?thesis by (simp add: s')
    qed
  qed
  with dk have "page_table_consistent s'"
    unfolding page_table_consistent_iff by blast
  moreover have "g < length (pages s') \<and> pin_count (pages s' ! g) = 0"
    if "g \<in> set (free_list s') \<union> set (lru (replacer s'))" for g
  proof -
    from that f have "g \<noteq> f" and "g \<in> set (free_list s) \<union> set (lru (replacer s))"
      by (auto simp: s')
    with idle show ?thesis by (simp add: s')
  qed
  moreover have "distinct (free_list s')"
    using d by (simp add: s')
  moreover have "\<forall>g \<in> set (free_list s'). \<forall>p. map_of (page_table s') p \<noteq> Some g"
    using fr f unfolding s' map_of_update_Some by blast
  ultimately show ?thesis
    unfolding pool_invariant_iff by blast
qed

text \<open>
  What \<open>find_replace\<close> leaves when it hands out a frame: the invariant holds, and the frame
  is a frame of the pool, unpinned, out of the free list and without a resident page.
\<close>

lemma find_replace_invariant:
  assumes inv: "pool_invariant s" and fr: "find_replace s = (s1, Some f)"
  shows "pool_invariant s1 \<and> f < length (pages s1) \<and> pin_count (pages s1 ! f) = 0 \<and>
         f \<notin> set (free_list s1) \<and> (\<forall>p. map_of (page_table s1) p \<noteq> Some f)"
proof -
  from inv have c: "page_table_consistent s"
    and idle: "\<forall>g \<in> set (free_list s) \<union> set (lru (replacer s)).
        g < length (pages s) \<and> pin_count (pages s ! g) = 0"
    and d: "distinct (free_list s)"
    and frm: "\<forall>g \<in> set (free_list s). \<forall>p. map_of (page_table s) p \<noteq> Some g"
    by (simp_all add: pool_invariant_iff)
  have dk: "distinct (map fst (page_table s))"
    using c by (simp add: page_table_consistent_iff)
  show ?thesis
  proof (cases "free_list s")
    case (Cons h rest)
    with fr have s1: "s1 = s\<lparr>free_list := rest\<rparr>" and h: "f = h"
      by (simp_all add: find_replace_def)
    from inv Cons have "pool_invariant s1"
      by (auto simp: s1 pool_invariant_iff page_table_consistent_iff)
    with idle frm d Cons show ?thesis
      by (auto simp: s1 h)
  next
    case Nil
    with fr obtain r' where v: "Victim (replacer s) = Some (f, r')"
      by (auto simp: find_replace_def Let_def split: option.splits if_splits)
    then have lru: "lru (replacer s) \<noteq> []" "f = last (lru (replacer s))"
      "lru r' = butlast (lru (replacer s))"
      by (auto simp: Victim_Some)
    then have fin: "f \<in> set (lru (replacer s))" by simp
    with idle have fl: "f < length (pages s)" and fp: "pin_count (pages s ! f) = 0"
      by auto
    have sub: "set (lru r') \<subseteq> set (lru (replacer s))"
      using lru by (auto dest: in_set_butlastD)
    show ?thesis
    proof (cases "f \<in> snd ` set (page_table s)")
      case False
      from find_replace_victim_absent [OF Nil v False] fr
      have s1: "s1 = s\<lparr>replacer := r'\<rparr>" by simp
      have "pool_invariant s1"
        using inv sub by (auto simp: s1 pool_invariant_iff page_table_consistent_iff)
      moreover have "\<forall>p. map_of (page_table s) p \<noteq> Some f"
        using False frame_resident_iff [OF dk] by auto
      ultimately show ?thesis
        using fl fp Nil by (simp add: s1)
    next
      case True
      let ?pid = "page_id (pages s ! f)"
      from find_replace_victim_resident [OF Nil v c True] fr
      have pg: "pages s1 = (if is_dirty (pages s ! f)
                  then (pages s)[f := (pages s ! f)\<lparr>pin_count := 0\<rparr>] else pages s)"
        and tb: "page_table s1 = AList.delete ?pid (page_table s)"
        and fl1: "free_list s1 = []" and rp: "replacer s1 = r'"
        using Nil by (auto split: if_splits)
      have none: "\<forall>p. map_of (page_table s1) p \<noteq> Some f"
        using c by (auto simp: tb map_of_delete_Some page_table_consistent_iff)
      have same: "g < length (pages s) \<Longrightarrow>
          page_id (pages s1 ! g) = page_id (pages s ! g) \<and>
          (pin_count (pages s ! g) = 0 \<longrightarrow> pin_count (pages s1 ! g) = 0)" for g
        by (cases "g = f") (auto simp: pg)
      have len: "length (pages s1) = length (pages s)"
        by (simp add: pg)
      have dk1: "distinct (map fst (page_table s1))"
        using dk by (simp add: tb distinct_delete)
      have "p \<noteq> INVALID_PAGE_ID \<and> g < length (pages s1) \<and> page_id (pages s1 ! g) = p"
        if "map_of (page_table s1) p = Some g" for p g
      proof -
        from that have "map_of (page_table s) p = Some g"
          by (simp add: tb map_of_delete_Some)
        with c have "p \<noteq> INVALID_PAGE_ID \<and> g < length (pages s) \<and>
            page_id (pages s ! g) = p"
          unfolding page_table_consistent_iff by blast
        with same [of g] show ?thesis by (simp add: len)
      qed
      with dk1 have "page_table_consistent s1"
        unfolding page_table_consistent_iff by blast
      moreover have "\<forall>g \<in> set (free_list s1) \<union> set (lru (replacer s1)).
          g < length (pages s1) \<and> pin_count (pages s1 ! g) = 0"
        using idle sub same by (auto simp: fl1 rp len)
      ultimately have "pool_invariant s1"
        by (simp add: pool_invariant_iff fl1)
      with none fl fp same [of f] show ?thesis
        by (simp add: fl1 len)
    qed
  qed
qed

lemma find_replace_None_state:
  "find_replace s = (s1, None) \<Longrightarrow> s1 = s"
  by (auto simp: find_replace_def Let_def split: list.splits option.splits if_splits)

lemma NewPgImp_invariant:
  assumes inv: "pool_invariant s" and valid: "next_page_id s \<noteq> INVALID_PAGE_ID"
    and run: "NewPgImp s = Inr (s', r)"
  shows "pool_invariant s'"
proof -
  from run obtain p s0 where a: "AllocatePage s = Inr (p, s0)"
    by (auto simp: NewPgImp_def split: sum.splits)
  then have p: "p = next_page_id s"
    and s0: "s0 = s\<lparr>next_page_id := next_page_id s + num_instances s\<rparr>"
    by (simp_all add: AllocatePage_Inr_iff)
  have inv0: "pool_invariant s0"
    using inv pool_invariant_fields [of s0 s] by (simp add: s0)
  show ?thesis
  proof (cases "list_all (\<lambda>p. pin_count p \<noteq> 0) (pages s0)")
    case True
    with run a have "s' = s0" by (simp add: NewPgImp_def)
    with inv0 show ?thesis by simp
  next
    case False
    obtain s1 v where fr: "find_replace s0 = (s1, v)"
      by (cases "find_replace s0")
    show ?thesis
    proof (cases v)
      case None
      with run a False fr have "s' = s1" by (simp add: NewPgImp_def)
      moreover from fr None have "s1 = s0" by (simp add: find_replace_None_state)
      ultimately show ?thesis using inv0 by simp
    next
      case (Some f)
      from find_replace_invariant [OF inv0] fr Some
      have inv1: "pool_invariant s1" and f: "f < length (pages s1)"
        "f \<notin> set (free_list s1)" "\<forall>q. map_of (page_table s1) q \<noteq> Some f"
        by simp_all
      let ?pg = "(pages s1 ! f)\<lparr>page_id := p, pin_count := pin_count (pages s1 ! f) + 1,
                   is_dirty := False\<rparr>"
      from run a False fr Some
      have s': "s' = s1\<lparr>pages := (pages s1)[f := ?pg], replacer := Pin f (replacer s1),
                      page_table := AList.update p f (page_table s1)\<rparr>"
        by (simp add: NewPgImp_def Let_def)
      show ?thesis
        by (rule install_invariant [OF inv1 f, of p ?pg])
          (simp_all add: s' p valid Pin_def)
    qed
  qed
qed

lemma FetchPgImp_invariant:
  assumes inv: "pool_invariant s" and valid: "pid \<noteq> INVALID_PAGE_ID"
    and run: "FetchPgImp disk pid s = (s', r)"
  shows "pool_invariant s'"
proof (cases "map_of (page_table s) pid")
  case (Some f)
  let ?pg = "(pages s ! f)\<lparr>pin_count := pin_count (pages s ! f) + 1\<rparr>"
  from run Some have s': "pages s' = (pages s)[f := ?pg]"
    "page_table s' = page_table s" "free_list s' = free_list s"
    "lru (replacer s') = removeAll f (lru (replacer s))"
    by (auto simp: FetchPgImp_def Let_def Pin_def)
  from inv have c: "page_table_consistent s"
    and idle: "\<forall>g \<in> set (free_list s) \<union> set (lru (replacer s)).
        g < length (pages s) \<and> pin_count (pages s ! g) = 0"
    and d: "distinct (free_list s)"
    and fr: "\<forall>g \<in> set (free_list s). \<forall>p. map_of (page_table s) p \<noteq> Some g"
    by (simp_all add: pool_invariant_iff)
  from fr Some have nf: "f \<notin> set (free_list s)" by auto
  have same: "page_id (pages s' ! g) = page_id (pages s ! g)"
    if "g < length (pages s)" for g
    using that by (cases "g = f") (simp_all add: s')
  have "p \<noteq> INVALID_PAGE_ID \<and> g < length (pages s') \<and> page_id (pages s' ! g) = p"
    if "map_of (page_table s') p = Some g" for p g
  proof -
    from that c have "p \<noteq> INVALID_PAGE_ID \<and> g < length (pages s) \<and>
        page_id (pages s ! g) = p"
      unfolding page_table_consistent_iff s' by blast
    with same [of g] show ?thesis by (simp add: s')
  qed
  moreover have "distinct (map fst (page_table s'))"
    using c by (simp add: s' page_table_consistent_iff)
  ultimately have "page_table_consistent s'"
    unfolding page_table_consistent_iff by blast
  moreover have "g < length (pages s') \<and> pin_count (pages s' ! g) = 0"
    if "g \<in> set (free_list s') \<union> set (lru (replacer s'))" for g
  proof -
    from that nf have "g \<noteq> f" and "g \<in> set (free_list s) \<union> set (lru (replacer s))"
      by (auto simp: s')
    with idle show ?thesis by (simp add: s')
  qed
  moreover have "\<forall>g \<in> set (free_list s'). \<forall>p. map_of (page_table s') p \<noteq> Some g"
    using fr by (simp add: s')
  ultimately show ?thesis
    using d unfolding pool_invariant_iff s'(3) by blast
next
  case None
  obtain s1 v where fr: "find_replace s = (s1, v)"
    by (cases "find_replace s")
  show ?thesis
  proof (cases v)
    case None': None
    with run None fr have "s' = s1" by (simp add: FetchPgImp_def)
    moreover from fr None' have "s1 = s" by (simp add: find_replace_None_state)
    ultimately show ?thesis using inv by simp
  next
    case (Some f)
    from find_replace_invariant [OF inv] fr Some
    have inv1: "pool_invariant s1" and f: "f < length (pages s1)"
      "f \<notin> set (free_list s1)" "\<forall>q. map_of (page_table s1) q \<noteq> Some f"
      by simp_all
    let ?old = "page_id (pages s1 ! f)"
    let ?s2 = "s1\<lparr>page_table := AList.delete ?old (page_table s1)\<rparr>"
    have inv2: "pool_invariant ?s2"
      by (rule erase_invariant [OF inv1]) simp_all
    have f2: "f < length (pages ?s2)" "f \<notin> set (free_list ?s2)"
      "\<forall>q. map_of (page_table ?s2) q \<noteq> Some f"
      using f by (simp_all add: map_of_delete_Some)
    let ?pg = "(pages s1 ! f)\<lparr>data := disk pid, page_id := pid,
                 pin_count := pin_count (pages s1 ! f) + 1, is_dirty := False\<rparr>"
    from run None fr Some
    have s': "pages s' = (pages s1)[f := ?pg]"
      "page_table s' = AList.update pid f (AList.delete ?old (page_table s1))"
      "free_list s' = free_list s1"
      "lru (replacer s') = removeAll f (lru (replacer s1))"
      by (auto simp: FetchPgImp_def Let_def Pin_def)
    show ?thesis
      by (rule install_invariant [OF inv2 f2, of pid ?pg]) (simp_all add: s' valid)
  qed
qed

lemma UnpinPgImp_invariant:
  assumes inv: "pool_invariant s" and run: "UnpinPgImp pid d s = (s', b)"
  shows "pool_invariant s'"
proof (cases "map_of (page_table s) pid")
  case None
  with run have "s' = s" by (simp add: UnpinPgImp_def)
  with inv show ?thesis by simp
next
  case (Some f)
  from inv have c: "page_table_consistent s"
    and idle: "\<forall>g \<in> set (free_list s) \<union> set (lru (replacer s)).
        g < length (pages s) \<and> pin_count (pages s ! g) = 0"
    and dl: "distinct (free_list s)"
    and fr: "\<forall>g \<in> set (free_list s). \<forall>p. map_of (page_table s) p \<noteq> Some g"
    by (simp_all add: pool_invariant_iff)
  from c Some have fl: "f < length (pages s)"
    unfolding page_table_consistent_iff by blast
  from fr Some have nf: "f \<notin> set (free_list s)" by auto
  from run Some have tb: "page_table s' = page_table s" and fl': "free_list s' = free_list s"
    and len: "length (pages s') = length (pages s)"
    by (auto simp: UnpinPgImp_def Let_def split: if_splits)
  have other: "pages s' ! g = pages s ! g" if "g \<noteq> f" for g
    using that run Some by (auto simp: UnpinPgImp_def Let_def split: if_splits)
  have pidf: "page_id (pages s' ! f) = page_id (pages s ! f)"
    using run Some fl by (auto simp: UnpinPgImp_def Let_def split: if_splits)
  have own: "f \<in> set (lru (replacer s')) \<Longrightarrow> pin_count (pages s' ! f) = 0"
    using run Some fl idle
    by (auto simp: UnpinPgImp_def Let_def Unpin_def split: if_splits)
  have lru: "set (lru (replacer s')) \<subseteq> insert f (set (lru (replacer s)))"
    using run Some by (auto simp: UnpinPgImp_def Let_def Unpin_def split: if_splits)
  have "p \<noteq> INVALID_PAGE_ID \<and> g < length (pages s') \<and> page_id (pages s' ! g) = p"
    if "map_of (page_table s') p = Some g" for p g
  proof -
    from that c have "p \<noteq> INVALID_PAGE_ID \<and> g < length (pages s) \<and>
        page_id (pages s ! g) = p"
      unfolding page_table_consistent_iff tb by blast
    with other [of g] pidf show ?thesis
      by (cases "g = f") (simp_all add: len)
  qed
  moreover have "distinct (map fst (page_table s'))"
    using c by (simp add: tb page_table_consistent_iff)
  ultimately have "page_table_consistent s'"
    unfolding page_table_consistent_iff by blast
  moreover have "g < length (pages s') \<and> pin_count (pages s' ! g) = 0"
    if "g \<in> set (free_list s') \<union> set (lru (replacer s'))" for g
  proof (cases "g = f")
    case True
    with that nf fl own show ?thesis by (auto simp: fl' len)
  next
    case False
    with that lru have "g \<in> set (free_list s) \<union> set (lru (replacer s))"
      by (auto simp: fl')
    with idle other [OF False] show ?thesis by (simp add: len)
  qed
  moreover have "\<forall>g \<in> set (free_list s'). \<forall>p. map_of (page_table s') p \<noteq> Some g"
    using fr by (simp add: tb fl')
  ultimately show ?thesis
    using dl unfolding pool_invariant_iff fl' by blast
qed

lemma DeletePgImp_invariant:
  assumes inv: "pool_invariant s" and run: "DeletePgImp pid s = (s', b)"
  shows "pool_invariant s'"
proof (cases "map_of (page_table s) pid")
  case None
  with run have "s' = s" by (simp add: DeletePgImp_def)
  with inv show ?thesis by simp
next
  case (Some f)
  show ?thesis
  proof (cases "0 < pin_count (pages s ! f)")
    case True
    with run Some have "s' = s" by (simp add: DeletePgImp_def)
    with inv show ?thesis by simp
  next
    case False
    from inv have c: "page_table_consistent s"
      and idle: "\<forall>g \<in> set (free_list s) \<union> set (lru (replacer s)).
          g < length (pages s) \<and> pin_count (pages s ! g) = 0"
      and dl: "distinct (free_list s)"
      and fr: "\<forall>g \<in> set (free_list s). \<forall>p. map_of (page_table s) p \<noteq> Some g"
      by (simp_all add: pool_invariant_iff)
    from c Some have fl: "f < length (pages s)" and fp: "page_id (pages s ! f) = pid"
      unfolding page_table_consistent_iff by blast+
    from fr Some have nf: "f \<notin> set (free_list s)" by auto
    let ?pg = "(pages s ! f)\<lparr>is_dirty := False, pin_count := 0,
                 page_id := INVALID_PAGE_ID\<rparr>"
    from run Some False
    have s': "pages s' = (pages s)[f := ?pg]"
      "page_table s' = AList.delete pid (page_table s)"
      "free_list s' = free_list s @ [f]"
      "lru (replacer s') = lru (replacer s)"
      by (auto simp: DeletePgImp_def Let_def FlushPgImp_def split: if_splits)
    have only: "g \<noteq> f" if "map_of (page_table s') p = Some g" for p g
    proof
      assume "g = f"
      with that have "p \<noteq> pid" and "map_of (page_table s) p = Some f"
        by (simp_all add: s' map_of_delete_Some)
      with c fp show False
        unfolding page_table_consistent_iff by blast
    qed
    have "p \<noteq> INVALID_PAGE_ID \<and> g < length (pages s') \<and> page_id (pages s' ! g) = p"
      if m: "map_of (page_table s') p = Some g" for p g
    proof -
      from m have "map_of (page_table s) p = Some g"
        by (simp add: s' map_of_delete_Some)
      with c have "p \<noteq> INVALID_PAGE_ID \<and> g < length (pages s) \<and>
          page_id (pages s ! g) = p"
        unfolding page_table_consistent_iff by blast
      with only [OF m] show ?thesis by (simp add: s')
    qed
    moreover have "distinct (map fst (page_table s'))"
      using c by (simp add: s' page_table_consistent_iff distinct_delete)
    ultimately have "page_table_consistent s'"
      unfolding page_table_consistent_iff by blast
    moreover have "g < length (pages s') \<and> pin_count (pages s' ! g) = 0"
      if "g \<in> set (free_list s') \<union> set (lru (replacer s'))" for g
    proof (cases "g = f")
      case True
      with fl show ?thesis by (simp add: s')
    next
      case False
      with that have "g \<in> set (free_list s) \<union> set (lru (replacer s))"
        by (auto simp: s')
      with idle False show ?thesis by (simp add: s')
    qed
    moreover have "distinct (free_list s')"
      using dl nf by (simp add: s')
    moreover have "map_of (page_table s') p \<noteq> Some g"
      if "g \<in> set (free_list s')" for g p
    proof (cases "g = f")
      case True
      with only [of p g] show ?thesis by blast
    next
      case False
      with that have "g \<in> set (free_list s)" by (simp add: s')
      with fr show ?thesis by (simp add: s' map_of_delete_Some)
    qed
    ultimately show ?thesis
      unfolding pool_invariant_iff by blast
  qed
qed

text \<open>
  Every pool reached from the constructor by the operations on pages, with valid page
  ids, satisfies the invariant: the hypotheses on the pool of the theorems on
  \<open>NewPgImp\<close>, \<open>find_replace\<close> and \<open>DeletePgImp\<close> hold in all of them.
\<close>

lemma reachable_invariant:
  assumes "reachable s"
  shows "pool_invariant s"
  using assms
proof (induction rule: reachable.induct)
  case (constructed k num idx s)
  then show ?case by (rule constructed_invariant)
next
  case (new_page s s' r)
  then show ?case by (blast intro: NewPgImp_invariant)
next
  case (fetch_page s pid disk s' r)
  then show ?case by (blast intro: FetchPgImp_invariant)
next
  case (unpin_page s pid d s' b)
  then show ?case by (blast intro: UnpinPgImp_invariant)
next
  case (delete_page s pid s' b)
  then show ?case by (blast intro: DeletePgImp_invariant)
qed

lemma reachable_hypotheses:
  assumes "reachable s"
  shows "page_table_consistent s \<and> idle_frames_unpinned s"
  using reachable_invariant [OF assms] by (simp add: pool_invariant_def)

text \<open>The pools of the examples are reached from the constructor.\<close>

lemma reachable_fresh_pool: "reachable fresh_pool"
  using fresh_pool_constructed by (rule reachable.constructed)

lemma reachable_pinned_pool: "reachable pinned_pool"
proof (rule reachable.new_page [OF reachable_fresh_pool _ fresh_pool_NewPgImp])
  show "next_page_id fresh_pool \<noteq> INVALID_PAGE_ID"
    by (simp add: fresh_pool_def INVALID_PAGE_ID_def)
qed

lemma reachable_unpinned_pool: "reachable unpinned_pool"
  using reachable_pinned_pool pinned_pool_UnpinPgImp by (rule reachable.unpin_page)

lemma reachable_dirty_pool: "reachable dirty_pool"
proof -
  have "UnpinPgImp 0 True pinned_pool = (dirty_pool, True)"
    by (simp add: UnpinPgImp_def pinned_pool_def dirty_pool_def Unpin_def)
  with reachable_pinned_pool show ?thesis by (rule reachable.unpin_page)
qed

lemma reachable_stale_pool: "reachable stale_pool"
proof -
  have "(5 :: page_id_t) \<noteq> INVALID_PAGE_ID"
    by (simp add: INVALID_PAGE_ID_def)
  with reachable_fresh_pool have "reachable fetched_pool"
    using fresh_pool_FetchPgImp by (rule reachable.fetch_page)
  then show ?thesis
    using fetched_pool_UnpinPgImp by (rule reachable.unpin_page)
qed

section \<open>Locking in the update and insert executors\<close>

lemma foldl_update_index:
  "foldl (update_index env old new rid) (txn, calls) indexes =
     (txn\<lparr>index_write_set := index_write_set txn @
             update_index_records env old new rid indexes\<rparr>,
      calls @ update_index_calls env old new rid indexes)"
proof (induction indexes arbitrary: txn calls)
  case Nil
  show ?case by (simp add: update_index_records_def update_index_calls_def)
next
  case (Cons i indexes)
  let ?txn1 = "txn\<lparr>index_write_set := index_write_set txn @
                 update_index_records env old new rid [i]\<rparr>"
  let ?calls1 = "calls @ update_index_calls env old new rid [i]"
  have step: "update_index env old new rid (txn, calls) i = (?txn1, ?calls1)"
    by (simp add: update_index_def update_index_records_def update_index_calls_def)
  have "foldl (update_index env old new rid) (txn, calls) (i # indexes) =
      foldl (update_index env old new rid) (?txn1, ?calls1) indexes"
    by (simp only: foldl_Cons step)
  also have "\<dots> =
      (?txn1\<lparr>index_write_set := index_write_set ?txn1 @
                 update_index_records env old new rid indexes\<rparr>,
       ?calls1 @ update_index_calls env old new rid indexes)"
    by (rule Cons.IH)
  finally show ?case
    by (simp add: update_index_records_def update_index_calls_def)
qed

lemma foldl_insert_index:
  "foldl (insert_index env t rid) (txn, calls) indexes =
     (txn\<lparr>index_write_set := index_write_set txn @ insert_index_records env t rid indexes\<rparr>,
      calls @ insert_index_calls env t rid indexes)"
proof (induction indexes arbitrary: txn calls)
  case Nil
  show ?case by (simp add: insert_index_records_def insert_index_calls_def)
next
  case (Cons i indexes)
  let ?txn1 = "txn\<lparr>index_write_set := index_write_set txn @
                 insert_index_records env t rid [i]\<rparr>"
  let ?calls1 = "calls @ insert_index_calls env t rid [i]"
  have step: "insert_index env t rid (txn, calls) i = (?txn1, ?calls1)"
    by (simp add: insert_index_def insert_index_records_def insert_index_calls_def)
  have "foldl (insert_index env t rid) (txn, calls) (i # indexes) =
      foldl (insert_index env t rid) (?txn1, ?calls1) indexes"
    by (simp only: foldl_Cons step)
  also have "\<dots> =
      (?txn1\<lparr>index_write_set := index_write_set ?txn1 @
                 insert_index_records env t rid indexes\<rparr>,
       ?calls1 @ insert_index_calls env t rid indexes)"
    by (rule Cons.IH)
  finally show ?case
    by (simp add: insert_index_records_def insert_index_calls_def)
qed

lemma update_index_calls_plain:
  "list_all (\<lambda>c. \<not> is_lock_call c \<and> \<not> is_UpdateTupleCall c)
     (update_index_calls env old new rid indexes)"
  by (induction indexes)
    (simp_all add: update_index_calls_def is_lock_call_def is_UpdateTupleCall_def)

text \<open>The three ways through the locking of \<open>UpdateExecutor::Next\<close>.\<close>

lemma UpdateExecutor_Next_shared:
  assumes "child_Next env = Some (t, rid)" and "GetTuple env rid = Some old"
    and "IsSharedLocked txn rid"
  shows "UpdateExecutor_Next env txn =
     (if lock_granted env then
        let x = txn\<lparr>shared_lock_set := shared_lock_set txn - {rid},
                    exclusive_lock_set := insert rid (exclusive_lock_set txn)\<rparr>;
            new = GenerateUpdatedTuple env old
        in if UpdateTuple env then
             (x\<lparr>index_write_set := index_write_set x @
                   update_index_records env old new rid (table_indexes env)\<rparr>,
              [LockUpgradeCall rid, UpdateTupleCall new rid x] @
                update_index_calls env old new rid (table_indexes env), True)
           else (x, [LockUpgradeCall rid, UpdateTupleCall new rid x], False)
      else (txn\<lparr>txn_state := ABORTED\<rparr>, [LockUpgradeCall rid], False))"
  using assms
  by (simp add: UpdateExecutor_Next_def LockUpgrade_def Let_def foldl_update_index)

lemma UpdateExecutor_Next_unlocked:
  assumes "child_Next env = Some (t, rid)" and "GetTuple env rid = Some old"
    and "\<not> IsSharedLocked txn rid" and "\<not> IsExclusiveLocked txn rid"
  shows "UpdateExecutor_Next env txn =
     (if lock_granted env then
        let x = txn\<lparr>exclusive_lock_set := insert rid (exclusive_lock_set txn)\<rparr>;
            new = GenerateUpdatedTuple env old
        in if UpdateTuple env then
             (x\<lparr>index_write_set := index_write_set x @
                   update_index_records env old new rid (table_indexes env)\<rparr>,
              [LockExclusiveCall rid, UpdateTupleCall new rid x] @
                update_index_calls env old new rid (table_indexes env), True)
           else (x, [LockExclusiveCall rid, UpdateTupleCall new rid x], False)
      else (txn\<lparr>txn_state := ABORTED\<rparr>, [LockExclusiveCall rid], False))"
  using assms
  by (simp add: UpdateExecutor_Next_def LockExclusive_def Let_def foldl_update_index)

lemma UpdateExecutor_Next_exclusive:
  assumes "child_Next env = Some (t, rid)" and "GetTuple env rid = Some old"
    and "\<not> IsSharedLocked txn rid" and "IsExclusiveLocked txn rid"
  shows "UpdateExecutor_Next env txn =
     (let new = GenerateUpdatedTuple env old
      in if UpdateTuple env then
           (txn\<lparr>index_write_set := index_write_set txn @
                 update_index_records env old new rid (table_indexes env)\<rparr>,
            [UpdateTupleCall new rid txn] @
              update_index_calls env old new rid (table_indexes env), True)
         else (txn, [UpdateTupleCall new rid txn], False))"
  using assms
  by (simp add: UpdateExecutor_Next_def Let_def foldl_update_index)

text \<open>
  Claim C8: for every tuple that \<open>UpdateExecutor::Next\<close> processes (the child executor
  has yielded its record id and the table heap its tuple), the calls of \<open>Next\<close> begin with
  \<open>LockUpgrade\<close> when the transaction holds a shared lock on the record id, with
  \<open>LockExclusive\<close> when it holds neither a shared nor an exclusive lock, and with no lock
  call when it holds an exclusive lock; when the lock call returns false, \<open>Next\<close> makes no
  further call, returns false and has recorded no index write; otherwise the next call is
  \<open>UpdateTuple\<close> on that record id, with a transaction that holds the exclusive lock on
  it, and no lock call and no other \<open>UpdateTuple\<close> follows.
\<close>

theorem UpdateExecutor_Next_locking:
  assumes ch: "child_Next env = Some (t, rid)"
    and gt: "GetTuple env rid = Some old"
    and run: "UpdateExecutor_Next env txn = (txn', calls, ret)"
  shows "\<exists>after.
     calls =
       (if IsSharedLocked txn rid then [LockUpgradeCall rid]
        else if \<not> IsExclusiveLocked txn rid then [LockExclusiveCall rid]
        else []) @ after \<and>
     (if (IsSharedLocked txn rid \<or> \<not> IsExclusiveLocked txn rid) \<and> \<not> lock_granted env
      then after = [] \<and> \<not> ret \<and> index_write_set txn' = index_write_set txn
      else (\<exists>x index_calls.
              after = UpdateTupleCall (GenerateUpdatedTuple env old) rid x # index_calls \<and>
              IsExclusiveLocked x rid \<and>
              list_all (\<lambda>c. \<not> is_lock_call c \<and> \<not> is_UpdateTupleCall c) index_calls \<and>
              ret = UpdateTuple env))"
proof -
  note plain = update_index_calls_plain
    [of env old "GenerateUpdatedTuple env old" rid "table_indexes env"]
  consider (shared) "IsSharedLocked txn rid"
    | (unlocked) "\<not> IsSharedLocked txn rid" "\<not> IsExclusiveLocked txn rid"
    | (exclusive) "\<not> IsSharedLocked txn rid" "IsExclusiveLocked txn rid"
    by blast
  then show ?thesis
  proof cases
    case shared
    from run UpdateExecutor_Next_shared [OF ch gt shared] shared plain show ?thesis
      by (cases "lock_granted env"; cases "UpdateTuple env")
        (auto simp: Let_def IsExclusiveLocked_def)
  next
    case unlocked
    from run UpdateExecutor_Next_unlocked [OF ch gt unlocked] unlocked plain show ?thesis
      by (cases "lock_granted env"; cases "UpdateTuple env")
        (auto simp: Let_def IsExclusiveLocked_def)
  next
    case exclusive
    from run UpdateExecutor_Next_exclusive [OF ch gt exclusive] exclusive plain show ?thesis
      by (cases "UpdateTuple env") (auto simp: Let_def)
  qed
qed

theorem UpdateExecutor_Next_locking_witness:
  "IsSharedLocked reader_txn (RID 3 0)
   \<and> (\<exists>txn' x. UpdateExecutor_Next example_env reader_txn =
          (txn',
           [LockUpgradeCall (RID 3 0), UpdateTupleCall [15] (RID 3 0) x,
            DeleteEntryCall 0 [10] (RID 3 0), InsertEntryCall 0 [15] (RID 3 0)],
           True) \<and>
          IsExclusiveLocked x (RID 3 0))
   \<and> (\<exists>txn'. UpdateExecutor_Next (example_env\<lparr>lock_granted := False\<rparr>) reader_txn =
          (txn', [LockUpgradeCall (RID 3 0)], False))
   \<and> (\<exists>txn' x. UpdateExecutor_Next example_env new_txn =
          (txn',
           [LockExclusiveCall (RID 3 0), UpdateTupleCall [15] (RID 3 0) x,
            DeleteEntryCall 0 [10] (RID 3 0), InsertEntryCall 0 [15] (RID 3 0)],
           True) \<and>
          IsExclusiveLocked x (RID 3 0))"
proof -
  have ch: "child_Next example_env = Some ([10], RID 3 0)"
    and gt: "GetTuple example_env (RID 3 0) = Some [10]"
    by (simp_all add: example_env_def)
  have sh: "IsSharedLocked reader_txn (RID 3 0)"
    by (simp add: IsSharedLocked_def reader_txn_def)
  have new: "GenerateUpdatedTuple example_env [10] = [15]"
    by (simp add: GenerateUpdatedTuple_def example_env_def)
  obtain txn' calls ret where
    run: "UpdateExecutor_Next example_env reader_txn = (txn', calls, ret)"
    by (cases "UpdateExecutor_Next example_env reader_txn") auto
  from UpdateExecutor_Next_locking [OF ch gt run] sh new
  obtain x index_calls where
    calls: "calls = LockUpgradeCall (RID 3 0) # UpdateTupleCall [15] (RID 3 0) x # index_calls"
    and x: "IsExclusiveLocked x (RID 3 0)" and ret: "ret = UpdateTuple example_env"
    by (auto simp: example_env_def)
  have full: "UpdateExecutor_Next example_env reader_txn =
      (reader_txn
         \<lparr>shared_lock_set := {}, exclusive_lock_set := {RID 3 0},
          index_write_set :=
            [\<lparr>iw_rid = RID 3 0, iw_table_oid = 1, iw_wtype = UPDATE, iw_tuple = [15],
              iw_old_tuple = [10], iw_index_oid = 0\<rparr>]\<rparr>,
       [LockUpgradeCall (RID 3 0),
        UpdateTupleCall [15] (RID 3 0)
          (reader_txn\<lparr>shared_lock_set := {}, exclusive_lock_set := {RID 3 0}\<rparr>),
        DeleteEntryCall 0 [10] (RID 3 0), InsertEntryCall 0 [15] (RID 3 0)],
       True)"
    by (simp add: UpdateExecutor_Next_def LockUpgrade_def IsSharedLocked_def Let_def
        GenerateUpdatedTuple_def update_index_def example_env_def reader_txn_def)
  with run calls have "x = reader_txn\<lparr>shared_lock_set := {}, exclusive_lock_set := {RID 3 0}\<rparr>"
    by simp
  with x full have a: "\<exists>txn' x. UpdateExecutor_Next example_env reader_txn =
          (txn',
           [LockUpgradeCall (RID 3 0), UpdateTupleCall [15] (RID 3 0) x,
            DeleteEntryCall 0 [10] (RID 3 0), InsertEntryCall 0 [15] (RID 3 0)],
           True) \<and>
          IsExclusiveLocked x (RID 3 0)"
    by blast
  have b: "\<exists>txn'. UpdateExecutor_Next (example_env\<lparr>lock_granted := False\<rparr>) reader_txn =
          (txn', [LockUpgradeCall (RID 3 0)], False)"
    by (simp add: UpdateExecutor_Next_def LockUpgrade_def IsSharedLocked_def
        example_env_def reader_txn_def)
  have c: "\<exists>txn' x. UpdateExecutor_Next example_env new_txn =
          (txn',
           [LockExclusiveCall (RID 3 0), UpdateTupleCall [15] (RID 3 0) x,
            DeleteEntryCall 0 [10] (RID 3 0), InsertEntryCall 0 [15] (RID 3 0)],
           True) \<and>
          IsExclusiveLocked x (RID 3 0)"
    by (simp add: UpdateExecutor_Next_def LockExclusive_def IsSharedLocked_def Let_def
        IsExclusiveLocked_def GenerateUpdatedTuple_def update_index_def example_env_def
        new_txn_def)
  from sh a b c show ?thesis by blast
qed

text \<open>
  Claim C10: when the table heap has inserted the tuple, \<open>InsertExecutor::Next\<close> calls
  \<open>LockExclusive\<close> on the new record id and does not look at what it returns: with the
  lock granted and with the lock refused, \<open>Next\<close> makes the same calls (the insertion
  into every index among them), appends the same records to the index write set, and
  returns true with the same record id, although only in the first case the transaction
  holds the lock.
\<close>

theorem InsertExecutor_Next_ignores_lock_result:
  assumes ins: "InsertTuple env = Some rid"
    and avail: "if IsRawInsert env then next_insert < length (RawValues env)
                else child_Next env \<noteq> None"
  shows "\<exists>txnT txnF n' calls to_insert_tuple.
      InsertExecutor_Next (env\<lparr>lock_granted := True\<rparr>) txn next_insert =
        (txnT, n', calls, Some rid, True) \<and>
      InsertExecutor_Next (env\<lparr>lock_granted := False\<rparr>) txn next_insert =
        (txnF, n', calls, Some rid, True) \<and>
      calls = [InsertTupleCall to_insert_tuple txn, LockExclusiveCall rid] @
        insert_index_calls env to_insert_tuple rid (table_indexes env) \<and>
      index_write_set txnT = index_write_set txn @
        insert_index_records env to_insert_tuple rid (table_indexes env) \<and>
      index_write_set txnF = index_write_set txnT \<and>
      IsExclusiveLocked txnT rid \<and>
      exclusive_lock_set txnF = exclusive_lock_set txn"
proof (cases "IsRawInsert env")
  case True
  with avail have "\<not> length (RawValues env) \<le> next_insert" by simp
  with True ins show ?thesis
    by (simp add: InsertExecutor_Next_def LockExclusive_def foldl_insert_index
        IsExclusiveLocked_def insert_index_calls_def insert_index_records_def)
next
  case False
  with avail obtain t emit_rid where "child_Next env = Some (t, emit_rid)"
    by auto
  with False ins show ?thesis
    by (simp add: InsertExecutor_Next_def LockExclusive_def foldl_insert_index
        IsExclusiveLocked_def insert_index_calls_def insert_index_records_def)
qed

theorem InsertExecutor_Next_ignores_lock_result_witness:
  "InsertTuple example_env = Some (RID 4 1)
   \<and> (\<exists>txnT txnF.
        InsertExecutor_Next (example_env\<lparr>lock_granted := True\<rparr>) new_txn 0 =
          (txnT, 0,
           [InsertTupleCall [10] new_txn, LockExclusiveCall (RID 4 1),
            InsertEntryCall 0 [10] (RID 4 1)], Some (RID 4 1), True) \<and>
        InsertExecutor_Next (example_env\<lparr>lock_granted := False\<rparr>) new_txn 0 =
          (txnF, 0,
           [InsertTupleCall [10] new_txn, LockExclusiveCall (RID 4 1),
            InsertEntryCall 0 [10] (RID 4 1)], Some (RID 4 1), True) \<and>
        index_write_set txnF = index_write_set txnT \<and>
        IsExclusiveLocked txnT (RID 4 1) \<and>
        \<not> IsExclusiveLocked txnF (RID 4 1))"
proof -
  have ins: "InsertTuple example_env = Some (RID 4 1)"
    by (simp add: example_env_def)
  have avail: "if IsRawInsert example_env then 0 < length (RawValues example_env)
               else child_Next example_env \<noteq> None"
    by (simp add: example_env_def)
  from InsertExecutor_Next_ignores_lock_result [OF ins avail, of new_txn]
  obtain txnT txnF n' calls t where
    T: "InsertExecutor_Next (example_env\<lparr>lock_granted := True\<rparr>) new_txn 0 =
        (txnT, n', calls, Some (RID 4 1), True)"
    and F: "InsertExecutor_Next (example_env\<lparr>lock_granted := False\<rparr>) new_txn 0 =
        (txnF, n', calls, Some (RID 4 1), True)"
    and same: "index_write_set txnF = index_write_set txnT"
    and held: "IsExclusiveLocked txnT (RID 4 1)"
    and not_held: "exclusive_lock_set txnF = exclusive_lock_set new_txn"
    by blast
  have "InsertExecutor_Next (example_env\<lparr>lock_granted := True\<rparr>) new_txn 0 =
      (new_txn\<lparr>exclusive_lock_set := {RID 4 1},
         index_write_set :=
           [\<lparr>iw_rid = RID 4 1, iw_table_oid = 1, iw_wtype = INSERT, iw_tuple = [10],
             iw_old_tuple = [], iw_index_oid = 0\<rparr>]\<rparr>, 0,
       [InsertTupleCall [10] new_txn, LockExclusiveCall (RID 4 1),
        InsertEntryCall 0 [10] (RID 4 1)], Some (RID 4 1), True)"
    by (simp add: InsertExecutor_Next_def LockExclusive_def insert_index_def
        example_env_def new_txn_def)
  with T have n: "n' = 0"
    and calls: "calls = [InsertTupleCall [10] new_txn, LockExclusiveCall (RID 4 1),
        InsertEntryCall 0 [10] (RID 4 1)]"
    by simp_all
  have "\<not> IsExclusiveLocked txnF (RID 4 1)"
    using not_held by (simp add: IsExclusiveLocked_def new_txn_def)
  with T F same held n calls ins show ?thesis by blast
qed

end
